theory Spec2Isabelle
  imports Complex_Main "HOL-Library.Product_Lexorder" "HOL-Library.Sublist"
begin

section \<open>Python values used by the collector\<close>

text \<open>
  Exceptions of the Python run time and of the libraries, as values. A function of the
  model that can raise returns \<open>py_error + 'a\<close>, with \<open>Inl\<close> the raised exception.
\<close>

datatype py_error =
    ValueError | OverflowError | ZeroDivisionError | TypeError | KeyError
  | FileNotFoundError | AttributeError

subsection \<open>datetime\<close>

text \<open>
  A \<open>datetime.datetime\<close> is its seven fields (year, month, day, hour, minute, second,
  microsecond); Python compares two of them field by field in that order, which is the
  lexicographic order of the tuple. A calendar date is the first three fields.
\<close>

type_synonym date = "int \<times> int \<times> int"
type_synonym datetime = "int \<times> int \<times> int \<times> int \<times> int \<times> int \<times> int"

definition dt_year :: "datetime \<Rightarrow> int" where
  "dt_year dt = fst dt"

definition date_of :: "datetime \<Rightarrow> date" where
  "date_of dt = (case dt of (y, m, d, t) \<Rightarrow> (y, m, d))"

definition is_leap :: "int \<Rightarrow> bool" where
  "is_leap y = (y mod 4 = 0 \<and> (y mod 100 \<noteq> 0 \<or> y mod 400 = 0))"

definition days_in_month :: "int \<Rightarrow> int \<Rightarrow> int" where
  "days_in_month y m =
     (if m = 2 then (if is_leap y then 29 else 28)
      else if m = 4 \<or> m = 6 \<or> m = 9 \<or> m = 11 then 30 else 31)"

text \<open>The values \<open>datetime.now()\<close> can return.\<close>

definition valid_datetime :: "datetime \<Rightarrow> bool" where
  "valid_datetime dt =
     (case dt of (y, m, d, h, mi, s, us) \<Rightarrow>
        1 \<le> y \<and> y \<le> 9999 \<and> 1 \<le> m \<and> m \<le> 12 \<and> 1 \<le> d \<and> d \<le> days_in_month y m \<and>
        0 \<le> h \<and> h < 24 \<and> 0 \<le> mi \<and> mi < 60 \<and> 0 \<le> s \<and> s < 60 \<and> 0 \<le> us \<and> us < 1000000)"

text \<open>
  \<open>datetime(year, month, day)\<close>: midnight of that day. The constructor first reads each
  argument as a C \<open>int\<close>, with OverflowError for a number that does not fit, and then
  raises ValueError for a field out of range (the year must lie in MINYEAR..MAXYEAR,
  that is 1..9999).
\<close>

definition fits_c_int :: "int \<Rightarrow> bool" where
  "fits_c_int n = (- 2147483648 \<le> n \<and> n \<le> 2147483647)"

definition datetime_new :: "int \<Rightarrow> int \<Rightarrow> int \<Rightarrow> py_error + datetime" where
  "datetime_new y m d =
     (if \<not> (fits_c_int y \<and> fits_c_int m \<and> fits_c_int d) then Inl OverflowError
      else if 1 \<le> y \<and> y \<le> 9999 \<and> 1 \<le> m \<and> m \<le> 12 \<and> 1 \<le> d \<and> d \<le> days_in_month y m
      then Inr (y, m, d, 0, 0, 0, 0) else Inl ValueError)"

text \<open>\<open>dt - timedelta(days=1)\<close>: the same time on the day before, OverflowError before year 1.\<close>

definition sub_one_day :: "datetime \<Rightarrow> py_error + datetime" where
  "sub_one_day dt =
     (case dt of (y, m, d, t) \<Rightarrow>
        if 1 < d then Inr (y, m, d - 1, t)
        else if 1 < m then Inr (y, m - 1, days_in_month y (m - 1), t)
        else if 1 < y then Inr (y - 1, 12, 31, t)
        else Inl OverflowError)"

subsection \<open>Formatting\<close>

definition digit_char :: "int \<Rightarrow> char" where
  "digit_char d = ''0123456789'' ! nat d"

text \<open>\<open>str(n)\<close> for an integer.\<close>

fun str_nat :: "nat \<Rightarrow> string" where
  "str_nat n = (if n < 10 then [digit_char (int n)]
                else str_nat (n div 10) @ [digit_char (int (n mod 10))])"

declare str_nat.simps [simp del]

definition str_int :: "int \<Rightarrow> string" where
  "str_int i = (if i < 0 then CHR ''-'' # str_nat (nat (- i)) else str_nat (nat i))"

text \<open>
  \<open>strftime("%Y-%m-%d")\<close> as CPython prints it with the C library of Linux: the year as
  a plain decimal number, with no leading zeros (year 999 gives "999-01-01"), month and
  day on two digits.
\<close>

definition pad2 :: "int \<Rightarrow> string" where
  "pad2 n = [digit_char (n div 10 mod 10), digit_char (n mod 10)]"

definition fmt_date :: "date \<Rightarrow> string" where
  "fmt_date dd = (case dd of (y, m, d) \<Rightarrow> str_int y @ ''-'' @ pad2 m @ ''-'' @ pad2 d)"

definition strftime_ymd :: "datetime \<Rightarrow> string" where
  "strftime_ymd dt = fmt_date (date_of dt)"

section \<open>Quarter ranges: \<open>collect_news.generate_quarterly_ranges\<close>\<close>

text \<open>
  The function reads the clock several times; the model takes one fixed moment \<open>now\<close>
  for all of them. A quarter is the tuple (label, start date string, end date string).
\<close>

type_synonym quarter = "string \<times> string \<times> string"

definition quarter_months :: "(string \<times> int \<times> int) list" where
  "quarter_months = [(''Q1'', 1, 3), (''Q2'', 4, 6), (''Q3'', 7, 9), (''Q4'', 10, 12)]"

text \<open>
  The inner loop over the four quarters of one year; \<open>break\<close> leaves it with the
  quarters collected so far.
\<close>

fun quarter_loop ::
  "datetime \<Rightarrow> int \<Rightarrow> (string \<times> int \<times> int) list \<Rightarrow> quarter list \<Rightarrow> py_error + quarter list"
where
  "quarter_loop now year [] quarters = Inr quarters"
| "quarter_loop now year ((q_name, start_month, end_month) # rest) quarters =
     (case datetime_new year start_month 1 of
        Inl e \<Rightarrow> Inl e
      | Inr start_date \<Rightarrow>
         (case (if end_month = 12 then datetime_new year 12 31
                else (case datetime_new year (end_month + 1) 1 of
                        Inl e \<Rightarrow> Inl e
                      | Inr d \<Rightarrow> sub_one_day d)) of
            Inl e \<Rightarrow> Inl e
          | Inr end_date \<Rightarrow>
              if start_date > now then Inr quarters
              else
                let end_date' = (if end_date > now then now else end_date);
                    quarter_label = str_int year @ ''_'' @ q_name
                in quarter_loop now year rest
                     (quarters @ [(quarter_label, strftime_ymd start_date,
                                   strftime_ymd end_date')])))"

text \<open>The outer loop over \<open>range(start_year, end_year + 1)\<close>.\<close>

fun year_loop :: "datetime \<Rightarrow> int list \<Rightarrow> quarter list \<Rightarrow> py_error + quarter list" where
  "year_loop now [] quarters = Inr quarters"
| "year_loop now (year # years) quarters =
     (case quarter_loop now year quarter_months quarters of
        Inl e \<Rightarrow> Inl e
      | Inr quarters' \<Rightarrow> year_loop now years quarters')"

definition generate_quarterly_ranges ::
  "int \<Rightarrow> int option \<Rightarrow> datetime \<Rightarrow> py_error + quarter list"
where
  "generate_quarterly_ranges start_year end_year now =
     (let end_year' = (case end_year of None \<Rightarrow> dt_year now | Some y \<Rightarrow> y)
      in year_loop now [start_year..end_year'] [])"

section \<open>Quarter ranges: \<open>generate_tasks.generate_quarterly_ranges\<close>\<close>

definition tasks_quarter_months :: "(string \<times> int \<times> int) list" where
  "tasks_quarter_months = [(''Q1'', 1, 3), (''Q2'', 4, 6), (''Q3'', 7, 9), (''Q4'', 10, 12)]"

fun tasks_quarter_loop ::
  "datetime \<Rightarrow> int \<Rightarrow> (string \<times> int \<times> int) list \<Rightarrow> quarter list \<Rightarrow> py_error + quarter list"
where
  "tasks_quarter_loop now year [] quarters = Inr quarters"
| "tasks_quarter_loop now year ((q_name, start_month, end_month) # rest) quarters =
     (case datetime_new year start_month 1 of
        Inl e \<Rightarrow> Inl e
      | Inr start_date \<Rightarrow>
         (case (if end_month = 12 then datetime_new year 12 31
                else (case datetime_new year (end_month + 1) 1 of
                        Inl e \<Rightarrow> Inl e
                      | Inr d \<Rightarrow> sub_one_day d)) of
            Inl e \<Rightarrow> Inl e
          | Inr end_date \<Rightarrow>
              if start_date > now then Inr quarters
              else
                let end_date' = (if end_date > now then now else end_date)
                in tasks_quarter_loop now year rest
                     (quarters @ [(str_int year @ ''_'' @ q_name, strftime_ymd start_date,
                                   strftime_ymd end_date')])))"

fun tasks_year_loop :: "datetime \<Rightarrow> int list \<Rightarrow> quarter list \<Rightarrow> py_error + quarter list" where
  "tasks_year_loop now [] quarters = Inr quarters"
| "tasks_year_loop now (year # years) quarters =
     (case tasks_quarter_loop now year tasks_quarter_months quarters of
        Inl e \<Rightarrow> Inl e
      | Inr quarters' \<Rightarrow> tasks_year_loop now years quarters')"

definition tasks_generate_quarterly_ranges :: "int \<Rightarrow> datetime \<Rightarrow> py_error + quarter list" where
  "tasks_generate_quarterly_ranges start_year now =
     tasks_year_loop now [start_year..dt_year now] []"


section \<open>Configuration and records\<close>

text \<open>
  A Python string is a sequence of code points. A cell of a DataFrame holds a string or
  is missing (NaN), which is \<open>None\<close> here.
\<close>

type_synonym pystr = "nat list"
type_synonym cell = "pystr option"

text \<open>
  The values the functions read from \<open>CONFIG\<close>, each after its \<open>.get(key, default)\<close>.
\<close>

record config =
  display_per_page :: int
  max_items_per_query :: int
  api_call_delay :: real
  retry_count :: int
  retry_delay :: real
  exact_phrase_match :: bool
  remove_duplicates :: bool
  duplicate_check_column :: string

definition get_default_config :: config where
  "get_default_config =
     \<lparr>display_per_page = 100, max_items_per_query = 1000, api_call_delay = 1 / 10,
      retry_count = 3, retry_delay = 1, exact_phrase_match = True, remove_duplicates = True, duplicate_check_column = ''url''\<rparr>"

text \<open>A row of the frames the collector builds and of the part files it writes.\<close>

record news_row =
  title :: cell
  url :: cell
  source_url :: cell
  description :: cell
  date :: cell
  quarter :: cell
  keyword :: cell

text \<open>\<open>df[name]\<close> looked up by column name; a name that is no column raises KeyError.\<close>

definition column :: "string \<Rightarrow> (news_row \<Rightarrow> cell) option" where
  "column name =
     (if name = ''title'' then Some title
      else if name = ''url'' then Some url
      else if name = ''source_url'' then Some source_url
      else if name = ''description'' then Some description
      else if name = ''date'' then Some date
      else if name = ''quarter'' then Some quarter
      else if name = ''keyword'' then Some keyword
      else None)"

text \<open>\<open>df[mask]\<close>: the rows whose mask entry is true.\<close>

definition mask_rows :: "'r list \<Rightarrow> bool list \<Rightarrow> 'r list" where
  "mask_rows df flags = map fst (filter snd (zip df flags))"

section \<open>The search client: \<open>naver_search\<close>\<close>

text \<open>
  The parsed response, read as the callers read it: \<open>js.get("total", 0)\<close> and
  \<open>js.get("items", [])\<close>.
\<close>

record 'i response =
  total :: int
  items :: "'i list"

text \<open>
  What one pass through the \<open>try\<close> block does: \<open>requests.get\<close>, \<open>raise_for_status\<close> and
  \<open>res.json()\<close> give the parsed response, or one of them raises a
  \<open>RequestException\<close> (connection error, timeout, HTTP error status, undecodable body).
\<close>

datatype 'i attempt = Response "'i response" | RequestException

text \<open>\<open>time.sleep(seconds)\<close> raises ValueError for a negative length.\<close>

definition time_sleep :: "real \<Rightarrow> py_error option" where
  "time_sleep seconds = (if seconds < 0 then Some ValueError else None)"

text \<open>
  The loop \<open>for attempt in range(retry_count)\<close>, with \<open>retries\<close> for \<open>retry_count\<close> and
  \<open>delay\<close> for \<open>retry_delay\<close>. The result is the value returned (\<open>None\<close> when the loop
  ends without a \<open>return\<close>), the number of requests sent and the number of
  \<open>time.sleep(retry_delay)\<close> calls; an exception of \<open>time.sleep\<close> leaves the handler and
  the function.
\<close>

fun retry_loop ::
  "int \<Rightarrow> real \<Rightarrow> (nat \<Rightarrow> 'i attempt) \<Rightarrow> nat list \<Rightarrow>
   py_error + ('i response option \<times> nat \<times> nat)"
where
  "retry_loop retries delay http [] = Inr (None, 0, 0)"
| "retry_loop retries delay http (attempt # rest) =
     (case http attempt of
        Response js \<Rightarrow> Inr (Some js, 1, 0)
      | RequestException \<Rightarrow>
          if int attempt < retries - 1
          then (case time_sleep delay of
                  Some e \<Rightarrow> Inl e
                | None \<Rightarrow>
                   (case retry_loop retries delay http rest of
                      Inl e \<Rightarrow> Inl e
                    | Inr (v, requests, sleeps) \<Rightarrow> Inr (v, requests + 1, sleeps + 1)))
          else Inr (Some \<lparr>total = 0, items = []\<rparr>, 1, 0))"

definition naver_search ::
  "config \<Rightarrow> (nat \<Rightarrow> 'i attempt) \<Rightarrow> py_error + ('i response option \<times> nat \<times> nat)"
where
  "naver_search cfg http =
     retry_loop (retry_count cfg) (retry_delay cfg) http [0..<nat (retry_count cfg)]"

text \<open>The value a call returns, as its caller sees it.\<close>

definition search_result ::
  "py_error + ('i response option \<times> nat \<times> nat) \<Rightarrow> py_error + 'i response option"
where
  "search_result r = (case r of Inl e \<Rightarrow> Inl e | Inr (v, requests, sleeps) \<Rightarrow> Inr v)"

section \<open>Paging: \<open>fetch_news_in_quarter\<close>\<close>

text \<open>
  \<open>ceil(a / b)\<close>: the division raises ZeroDivisionError for \<open>b = 0\<close>; otherwise it is
  carried out in double precision. \<open>float_ceil a b\<close> stands for what Python computes
  there (a parameter of the model); \<open>exact_below_2_53\<close> says what IEEE arithmetic
  guarantees of it: for positive operands below \<open>2^53\<close> the correctly rounded quotient
  has the ceiling of the exact one.
\<close>

definition ceil_div :: "(int \<Rightarrow> int \<Rightarrow> py_error + int) \<Rightarrow> int \<Rightarrow> int \<Rightarrow> py_error + int" where
  "ceil_div float_ceil a b = (if b = 0 then Inl ZeroDivisionError else float_ceil a b)"

definition exact_below_2_53 :: "(int \<Rightarrow> int \<Rightarrow> py_error + int) \<Rightarrow> bool" where
  "exact_below_2_53 float_ceil =
     (\<forall>a b. 0 < a \<and> a < 2 ^ 53 \<and> 0 < b \<and> b < 2 ^ 53 \<longrightarrow> float_ceil a b = Inr (- ((- a) div b)))"

text \<open>\<open>xs[:n]\<close>; a negative \<open>n\<close> counts from the end.\<close>

definition slice_to :: "'a list \<Rightarrow> int \<Rightarrow> 'a list" where
  "slice_to xs n = (if 0 \<le> n then take (nat n) xs else take (length xs - nat (- n)) xs)"

text \<open>
  The part of \<open>fetch_news_in_quarter\<close> that talks to the API (up to the construction of
  the DataFrame). \<open>search start\<close> is what \<open>naver_search("news", keyword, display, start)\<close>
  does: it raises, or returns a response or \<open>None\<close>. The result is the raw item list and
  the \<open>start\<close> offsets requested, in order. A \<open>None\<close> from \<open>naver_search\<close> makes \<open>.get\<close>
  raise AttributeError.
\<close>

fun page_loop ::
  "int \<Rightarrow> int \<Rightarrow> real \<Rightarrow> (int \<Rightarrow> py_error + 'i response option) \<Rightarrow> int list \<Rightarrow> 'i list \<Rightarrow>
   int list \<Rightarrow> py_error + ('i list \<times> int list)"
where
  "page_loop display max_items api_delay search [] its requested = Inr (its, requested)"
| "page_loop display max_items api_delay search (page # pages) its requested =
     (let start = (page - 1) * display + 1 in
      case time_sleep api_delay of
        Some e \<Rightarrow> Inl e
      | None \<Rightarrow>
         (case search start of
            Inl e \<Rightarrow> Inl e
          | Inr None \<Rightarrow> Inl AttributeError
          | Inr (Some js) \<Rightarrow>
              let batch = items js in
              if batch = [] then Inr (its, requested @ [start])
              else
                let its' = its @ batch in
                if max_items \<le> int (length its')
                then Inr (slice_to its' max_items, requested @ [start])
                else page_loop display max_items api_delay search pages its'
                       (requested @ [start])))"

definition fetch_items ::
  "config \<Rightarrow> (int \<Rightarrow> int \<Rightarrow> py_error + int) \<Rightarrow> (int \<Rightarrow> py_error + 'i response option) \<Rightarrow>
   py_error + ('i list \<times> int list)"
where
  "fetch_items cfg float_ceil search =
     (let display = display_per_page cfg;
          max_items = max_items_per_query cfg;
          api_delay = api_call_delay cfg
      in case search 1 of
           Inl e \<Rightarrow> Inl e
         | Inr None \<Rightarrow> Inl AttributeError
         | Inr (Some first) \<Rightarrow>
             let total_available = total first;
                 total_to_fetch = min total_available max_items;
                 its = items first
             in if total_to_fetch = 0 then Inr ([], [1])
                else (case ceil_div float_ceil total_to_fetch display of
                        Inl e \<Rightarrow> Inl e
                      | Inr pages \<Rightarrow>
                          page_loop display max_items api_delay search [2..pages] its [1]))"

section \<open>Date filter: \<open>filter_by_date_range\<close>\<close>

text \<open>
  A pandas Timestamp: microseconds since the epoch (of the wall clock when it has no time
  zone, of UTC when it has one) and whether it carries a time zone.
\<close>

record timestamp =
  instant :: int
  tz_aware :: bool

text \<open>
  A datetime column of pandas: its entries (\<open>None\<close> is NaT) and whether its dtype
  carries a time zone. \<open>pd.to_datetime(col, format="%a, %d %b %Y %H:%M:%S %z",
  errors="coerce")\<close> parses each cell with \<open>strptime\<close> (a parameter: the UTC instant of a
  cell that matches the format); the format ends in \<open>%z\<close>, so every parsed entry has a
  UTC offset and the column is time-zone aware as soon as one entry parses. A column of
  NaT only has the plain dtype.
\<close>

definition to_datetime_column :: "(cell \<Rightarrow> int option) \<Rightarrow> cell list \<Rightarrow> int option list \<times> bool" where
  "to_datetime_column strptime col =
     (let parsed = map strptime col in (parsed, \<exists>p \<in> set parsed. p \<noteq> None))"

text \<open>
  Comparing a datetime column with a Timestamp: pandas raises TypeError when one side
  carries a time zone and the other does not; NaT compares false.
\<close>

definition series_cmp ::
  "(int \<Rightarrow> int \<Rightarrow> bool) \<Rightarrow> int option list \<times> bool \<Rightarrow> timestamp \<Rightarrow> py_error + bool list"
where
  "series_cmp op col ts =
     (if snd col \<noteq> tz_aware ts then Inl TypeError
      else Inr (map (\<lambda>c. case c of None \<Rightarrow> False | Some i \<Rightarrow> op i (instant ts)) (fst col)))"

definition one_day :: int where
  "one_day = 86400000000"

text \<open>
  \<open>to_datetime\<close> is \<open>pd.to_datetime\<close> on one string (a parameter): a Timestamp, or an
  exception for a string that is no date.
\<close>

definition filter_by_date_range ::
  "(cell \<Rightarrow> int option) \<Rightarrow> (string \<Rightarrow> py_error + timestamp) \<Rightarrow>
   news_row list \<Rightarrow> string \<Rightarrow> string \<Rightarrow> py_error + news_row list"
where
  "filter_by_date_range strptime to_datetime df start_date end_date =
     (if df = [] then Inr df
      else
        let parsed_date = to_datetime_column strptime (map date df) in
        (case to_datetime start_date of
          Inl e \<Rightarrow> Inl e
        | Inr start \<Rightarrow>
           (case to_datetime end_date of
              Inl e \<Rightarrow> Inl e
            | Inr end0 \<Rightarrow>
                (let end_ts = end0\<lparr>instant := instant end0 + one_day\<rparr> in
                 (case series_cmp (\<lambda>a b. a \<ge> b) parsed_date start of
                    Inl e \<Rightarrow> Inl e
                  | Inr ge_start \<Rightarrow>
                     (case series_cmp (\<lambda>a b. a < b) parsed_date end_ts of
                        Inl e \<Rightarrow> Inl e
                      | Inr lt_end \<Rightarrow> Inr (mask_rows df (map2 (\<and>) ge_start lt_end))))))))"

section \<open>Phrase filter: \<open>filter_exact_phrase\<close>\<close>

text \<open>Python's \<open>phrase in text\<close> on strings.\<close>

fun py_in :: "'a list \<Rightarrow> 'a list \<Rightarrow> bool" where
  "py_in phrase [] = (phrase = [])"
| "py_in phrase (c # cs) = (prefix phrase (c # cs) \<or> py_in phrase cs)"

text \<open>\<open>col.str.contains(phrase, regex=False, na=False)\<close> on one cell.\<close>

definition str_contains :: "cell \<Rightarrow> pystr \<Rightarrow> bool" where
  "str_contains c phrase = (case c of None \<Rightarrow> False | Some text \<Rightarrow> py_in phrase text)"

definition filter_exact_phrase :: "config \<Rightarrow> news_row list \<Rightarrow> pystr \<Rightarrow> news_row list" where
  "filter_exact_phrase cfg df phrase =
     (if df = [] then df
      else if \<not> exact_phrase_match cfg then df
      else
        let mask_title = map (\<lambda>r. str_contains (title r) phrase) df;
            mask_desc = map (\<lambda>r. str_contains (description r) phrase) df
        in mask_rows df (map2 (\<or>) mask_title mask_desc))"

section \<open>Merging the part files: \<open>merge_all_parts\<close>\<close>

text \<open>
  \<open>df.drop_duplicates(subset=[col])\<close> (pandas keeps the first row of each key and the
  order of the rows); \<open>seen\<close> holds the keys met so far.
\<close>

fun drop_duplicates_from :: "('r \<Rightarrow> 'k) \<Rightarrow> 'k list \<Rightarrow> 'r list \<Rightarrow> 'r list" where
  "drop_duplicates_from key seen [] = []"
| "drop_duplicates_from key seen (r # rs) =
     (if key r \<in> set seen then drop_duplicates_from key seen rs
      else r # drop_duplicates_from key (key r # seen) rs)"

definition drop_duplicates :: "('r \<Rightarrow> 'k) \<Rightarrow> 'r list \<Rightarrow> 'r list" where
  "drop_duplicates key df = drop_duplicates_from key [] df"

text \<open>What \<open>pd.read_csv\<close> does with one file: the rows, or an exception.\<close>

datatype 'r load = Loaded "'r list" | LoadFailed

text \<open>
  What a call of \<open>merge_all_parts\<close> leaves behind: the value returned (\<open>None\<close> or the
  path of the merged file), the merged file if one was written, and the number of
  removed duplicates if one was logged.
\<close>

record merge_outcome =
  returned :: "string option"
  written :: "(string \<times> news_row list) option"
  duplicates_removed :: "int option"

text \<open>The loop that reads the files: a file that fails to load is skipped with a warning.\<close>

fun read_all :: "(string \<times> news_row load) list \<Rightarrow> news_row list list" where
  "read_all [] = []"
| "read_all ((filename, Loaded df) # files) = df # read_all files"
| "read_all ((filename, LoadFailed) # files) = read_all files"

text \<open>
  \<open>mkdir\<close> is the exception that creating the directory of the output file raises, if
  any; \<open>listing\<close> is what \<open>os.listdir(input_dir)\<close> does: it raises (no such directory,
  for one), or returns the file names, here each with what \<open>pd.read_csv\<close> makes of the
  file; \<open>to_csv\<close> is the exception that writing the merged file raises, if any. A merged
  file that is read again later is taken to load as the rows written. The log lines are
  left out but for the number of removed duplicates.
\<close>

definition merge_all_parts ::
  "config \<Rightarrow> py_error option \<Rightarrow> py_error + (string \<times> news_row load) list \<Rightarrow> py_error option \<Rightarrow>
   string \<Rightarrow> py_error + merge_outcome"
where
  "merge_all_parts cfg mkdir listing to_csv output_file =
     (case mkdir of
        Some e \<Rightarrow> Inl e
      | None \<Rightarrow>
         (case listing of
            Inl e \<Rightarrow> Inl e
          | Inr entries \<Rightarrow>
              let csv_files = filter (\<lambda>(f, l). suffix ''.csv'' f) entries in
              if csv_files = []
              then Inr \<lparr>returned = None, written = None, duplicates_removed = None\<rparr>
              else
                let all_dfs = read_all csv_files in
                if all_dfs = []
                then Inr \<lparr>returned = None, written = None, duplicates_removed = None\<rparr>
                else
                  let df_merged = concat all_dfs in
                  if remove_duplicates cfg then
                    (case column (duplicate_check_column cfg) of
                       None \<Rightarrow> Inl KeyError
                     | Some key \<Rightarrow>
                         let initial_count = int (length df_merged);
                             df_dedup = drop_duplicates key df_merged
                         in (case to_csv of
                               Some e \<Rightarrow> Inl e
                             | None \<Rightarrow>
                                 Inr \<lparr>returned = Some output_file,
                                      written = Some (output_file, df_dedup),
                                      duplicates_removed =
                                        Some (initial_count - int (length df_dedup))\<rparr>))
                  else (case to_csv of
                          Some e \<Rightarrow> Inl e
                        | None \<Rightarrow>
                            Inr \<lparr>returned = Some output_file,
                                 written = Some (output_file, df_merged),
                                 duplicates_removed = None\<rparr>)))"

text \<open>
  The exit status of the process that runs the merge: an exception that nothing catches
  ends it with status 1, a normal return with status 0.
\<close>

definition exit_status :: "py_error + 'a \<Rightarrow> int" where
  "exit_status r = (case r of Inl e \<Rightarrow> 1 | Inr v \<Rightarrow> 0)"

section \<open>Auxiliary definitions for the proofs\<close>

type_synonym quarter_dates = "string \<times> date \<times> date"

definition render_quarter :: "quarter_dates \<Rightarrow> quarter" where
  "render_quarter q = (case q of (l, s, e) \<Rightarrow> (l, fmt_date s, fmt_date e))"

definition q_start :: "quarter_dates \<Rightarrow> date" where "q_start q = fst (snd q)"

definition q_end :: "quarter_dates \<Rightarrow> date" where "q_end q = snd (snd q)"

fun emitted :: "datetime \<Rightarrow> int \<Rightarrow> (string \<times> int \<times> int) list \<Rightarrow> quarter_dates list" where
  "emitted now year [] = []"
| "emitted now year ((q_name, sm, em) # rest) =
     (if (year, sm, 1, 0, 0, 0, 0) > now then []
      else (str_int year @ ''_'' @ q_name, (year, sm, 1),
            (if (year, em, days_in_month year em, 0, 0, 0, 0) > now then date_of now
             else (year, em, days_in_month year em))) # emitted now year rest)"

definition months_ok :: "(string \<times> int \<times> int) list \<Rightarrow> bool" where
  "months_ok qms = (\<forall>(n, sm, em) \<in> set qms. 1 \<le> sm \<and> sm \<le> 12 \<and> 1 \<le> em \<and> em \<le> 12)"

fun ordered_after :: "date \<Rightarrow> quarter_dates list \<Rightarrow> bool" where
  "ordered_after lo [] = True"
| "ordered_after lo (q # qs) = (lo < q_start q \<and> q_start q \<le> q_end q \<and> ordered_after (q_end q) qs)"

fun contig :: "int \<Rightarrow> (string \<times> int \<times> int) list \<Rightarrow> bool" where
  "contig m [] = (m = 13)"
| "contig m ((n, sm, em) # rest) = (sm = m \<and> sm \<le> em \<and> em \<le> 12 \<and> contig (em + 1) rest)"

definition quarter_dates :: "datetime \<Rightarrow> int list \<Rightarrow> quarter_dates list" where
  "quarter_dates now years = concat (map (\<lambda>y. emitted now y quarter_months) years)"

definition digit_val :: "char \<Rightarrow> int" where
  "digit_val c = int (of_char c) - 48"

definition read_num :: "string \<Rightarrow> int" where
  "read_num s = foldl (\<lambda>a c. 10 * a + digit_val c) 0 s"

definition read_date :: "string \<Rightarrow> date" where
  "read_date s =
     (let year = takeWhile (\<lambda>c. c \<noteq> CHR ''-'') s;
          rest = drop (length year + 1) s
      in (read_num year, read_num (take 2 rest), read_num (take 2 (drop 3 rest))))"

definition printable_date :: "date \<Rightarrow> bool" where
  "printable_date dd = (case dd of (y, m, d) \<Rightarrow> 0 \<le> y \<and> 0 \<le> m \<and> m \<le> 99 \<and> 0 \<le> d \<and> d \<le> 99)"

definition titled_row :: "pystr \<Rightarrow> news_row" where
  "titled_row t =
     \<lparr>title = Some t, url = None, source_url = None, description = Some [],
      date = None, quarter = None, keyword = None\<rparr>"

definition is_csv :: "string \<times> news_row load \<Rightarrow> bool" where
  "is_csv entry = suffix ''.csv'' (fst entry)"

definition loaded_rows :: "(string \<times> news_row load) list \<Rightarrow> news_row list" where
  "loaded_rows entries = concat (read_all (filter is_csv entries))"


definition url_row :: "pystr \<Rightarrow> pystr \<Rightarrow> news_row" where
  "url_row u t =
     \<lparr>title = Some t, url = Some u, source_url = None, description = None,
      date = None, quarter = None, keyword = None\<rparr>"

definition pubdate_15_feb :: pystr where
  "pubdate_15_feb =
     [84, 117, 101, 44, 32, 49, 53, 32, 70, 101, 98, 32, 50, 48, 50, 50, 32,
      49, 48, 58, 48, 48, 58, 48, 48, 32, 43, 48, 57, 48, 48]"

definition dated_row :: "pystr \<Rightarrow> news_row" where
  "dated_row d =
     \<lparr>title = Some [], url = Some [], source_url = Some [], description = Some [],
      date = Some d, quarter = None, keyword = None\<rparr>"

definition strptime_15_feb :: "cell \<Rightarrow> int option" where
  "strptime_15_feb c = (if c = Some pubdate_15_feb then Some 1644886800000000 else None)"

definition to_datetime_2022_Q1 :: "string \<Rightarrow> py_error + timestamp" where
  "to_datetime_2022_Q1 s =
     (if s = ''2022-01-01'' then Inr \<lparr>instant = 1640995200000000, tz_aware = False\<rparr>
      else if s = ''2022-03-31'' then Inr \<lparr>instant = 1648684800000000, tz_aware = False\<rparr>
      else Inl ValueError)"

definition page_start :: "int \<Rightarrow> int \<Rightarrow> int" where
  "page_start display page = (page - 1) * display + 1"

definition exact_ceil :: "int \<Rightarrow> int \<Rightarrow> py_error + int" where
  "exact_ceil a b = Inr (- ((- a) div b))"

definition api_250 :: "int \<Rightarrow> py_error + unit response option" where
  "api_250 start =
     Inr (Some \<lparr>total = 250, items = replicate (if start = 201 then 50 else 100) ()\<rparr>)"

definition api_5000 :: "int \<Rightarrow> py_error + unit response option" where
  "api_5000 start = Inr (Some \<lparr>total = 5000, items = replicate 100 ()\<rparr>)"

definition api_250_gap :: "int \<Rightarrow> py_error + unit response option" where
  "api_250_gap start =
     Inr (Some \<lparr>total = 250, items = replicate (if start = 1 then 100 else 0) ()\<rparr>)"

section \<open>Lemmas and theorems\<close>

lemma nominal_end:
  assumes "1 \<le> y" "y \<le> 9999" "1 \<le> em" "em \<le> 12"
  shows "(if em = 12 then datetime_new y 12 31
          else (case datetime_new y (em + 1) 1 of Inl e \<Rightarrow> Inl e | Inr d \<Rightarrow> sub_one_day d))
         = Inr (y, em, days_in_month y em, 0, 0, 0, 0)"
  using assms by (auto simp: datetime_new_def fits_c_int_def sub_one_day_def days_in_month_def)

lemma quarter_loop_emitted:
  assumes "1 \<le> y" "y \<le> 9999" "months_ok qms"
  shows "quarter_loop now y qms acc = Inr (acc @ map render_quarter (emitted now y qms))"
  using assms(3)
proof (induction qms arbitrary: acc)
  case Nil
  then show ?case by simp
next
  case (Cons q qms)
  obtain n sm em where q: "q = (n, sm, em)" by (cases q) auto
  from Cons.prems q have m: "1 \<le> sm" "sm \<le> 12" "1 \<le> em" "em \<le> 12" and ok: "months_ok qms"
    by (auto simp: months_ok_def)
  have s: "datetime_new y sm 1 = Inr (y, sm, 1, 0, 0, 0, 0)"
    using assms(1,2) m by (auto simp: datetime_new_def fits_c_int_def days_in_month_def)
  note e = nominal_end[OF assms(1,2) m(3,4)]
  show ?case
    unfolding q quarter_loop.simps s e
    by (simp add: Cons.IH[OF ok] render_quarter_def strftime_ymd_def date_of_def Let_def del: less_prod_simp)
qed

lemma year_out_of_range:
  assumes "\<not> (1 \<le> y \<and> y \<le> 9999)"
  shows "\<exists>e. quarter_loop now y quarter_months acc = Inl e"
  using assms by (auto simp: quarter_months_def datetime_new_def fits_c_int_def)

lemma year_below_one:
  assumes "y < 1" "fits_c_int y"
  shows "quarter_loop now y quarter_months acc = Inl ValueError"
  using assms by (auto simp: quarter_months_def datetime_new_def fits_c_int_def)

lemma contig_months_ok: "contig m qms \<Longrightarrow> 1 \<le> m \<Longrightarrow> months_ok qms"
  by (induction m qms rule: contig.induct) (auto simp: months_ok_def)

lemma contig_quarter_months: "contig 1 quarter_months"
  by (simp add: quarter_months_def)

lemma not_after_now: "\<not> (y, m, d, 0, 0, 0, 0) > (now :: datetime) \<Longrightarrow> (y, m, d) \<le> date_of now"
  by (cases now) (auto simp: date_of_def)

lemma after_now: "(y, m, d, 0, 0, 0, 0) > (now :: datetime) \<Longrightarrow> date_of now \<le> (y, m, d)"
  by (cases now) (auto simp: date_of_def)

lemma after_now_valid:
  "valid_datetime now \<Longrightarrow> (y, m, d, 0, 0, 0, 0) > now \<longleftrightarrow> date_of now < (y, m, d)"
  by (cases now) (auto simp: date_of_def valid_datetime_def)

lemma dim_ge: "1 \<le> days_in_month y m"
  by (simp add: days_in_month_def)

lemma emitted_ordered:
  "contig m qms \<Longrightarrow> lo < (y, m, 1) \<Longrightarrow>
     ordered_after lo (emitted now y qms) \<and> (\<forall>q \<in> set (emitted now y qms). q_end q \<le> (y, 12, 31))"
proof (induction m qms arbitrary: lo rule: contig.induct)
  case (1 m)
  then show ?case by simp
next
  case (2 m n sm em rest)
  let ?s = "(y, sm, 1, 0, 0, 0, 0)" and ?e = "(y, em, days_in_month y em, 0, 0, 0, 0)"
  from "2.prems" have c: "sm = m" "sm \<le> em" "em \<le> 12" "contig (em + 1) rest" by auto
  show ?case
  proof (cases "?s > now")
    case True
    then show ?thesis by simp
  next
    case False
    define e where "e = (if ?e > now then date_of now else (y, em, days_in_month y em))"
    have em: "emitted now y ((n, sm, em) # rest) = (str_int y @ ''_'' @ n, (y, sm, 1), e) # emitted now y rest"
      using False by (simp add: e_def del: less_prod_simp)
    have s_le: "(y, sm, 1) \<le> date_of now" using False by (rule not_after_now)
    have e_le: "e \<le> (y, em, days_in_month y em)"
      using after_now[where now=now and y=y and m=em and d="days_in_month y em"] by (auto simp: e_def simp del: less_prod_simp less_eq_prod_simp)
    have s_e: "(y, sm, 1) \<le> e"
      using s_le c(2) dim_ge[of y em] by (auto simp: e_def)
    have "(y, em, days_in_month y em) < (y, em + 1, 1)" by simp
    with e_le have e_lt: "e < (y, em + 1, 1)" by (rule le_less_trans)
    have dim31: "days_in_month y em \<le> 31" by (simp add: days_in_month_def)
    have e12: "e \<le> (y, 12, 31)"
      using e_le c(3) dim31 by (auto intro: order_trans[OF e_le])
    from "2.IH"[OF c(4) e_lt] "2.prems"(2) c(1) s_e e12
    show ?thesis unfolding em by (simp add: q_start_def q_end_def del: less_prod_simp less_eq_prod_simp)
  qed
qed

lemma emitted_not_future:
  "\<forall>q \<in> set (emitted now y qms). q_start q \<le> date_of now \<and> q_end q \<le> date_of now"
proof (induction qms)
  case Nil
  then show ?case by simp
next
  case (Cons q qms)
  obtain n sm em where q: "q = (n, sm, em)" by (cases q) auto
  show ?case
    using Cons.IH not_after_now[where now=now and y=y and m=sm and d=1]
      not_after_now[where now=now and y=y and m=em and d="days_in_month y em"]
    unfolding q
    by (auto simp: q_start_def q_end_def simp del: less_prod_simp less_eq_prod_simp)
qed

lemma emitted_last_is_today:
  assumes v: "valid_datetime now" and y: "dt_year now = y"
  shows "contig m qms \<Longrightarrow> qms \<noteq> [] \<Longrightarrow> (y, m, 1) \<le> date_of now \<Longrightarrow>
     emitted now y qms \<noteq> [] \<and> q_end (last (emitted now y qms)) = date_of now"
proof (induction m qms rule: contig.induct)
  case (1 m)
  then show ?case by simp
next
  case (2 m n sm em rest)
  let ?s = "(y, sm, 1, 0, 0, 0, 0)" and ?e = "(y, em, days_in_month y em, 0, 0, 0, 0)"
  from "2.prems" have c: "sm = m" "sm \<le> em" "em \<le> 12" "contig (em + 1) rest" by auto
  define e where "e = (if ?e > now then date_of now else (y, em, days_in_month y em))"
  have ns: "\<not> ?s > now"
    using "2.prems"(3) c(1) by (simp add: after_now_valid[OF v] del: less_prod_simp less_eq_prod_simp)
  have em: "emitted now y ((n, sm, em) # rest) = (str_int y @ ''_'' @ n, (y, sm, 1), e) # emitted now y rest"
    using ns by (simp add: e_def del: less_prod_simp)
  show ?case
  proof (cases "(y, em + 1, 1) \<le> date_of now \<and> rest \<noteq> []")
    case True
    with "2.IH"[OF c(4)] show ?thesis unfolding em by simp
  next
    case False
    have today: "date_of now \<le> (y, em, days_in_month y em)"
    proof (cases "rest = []")
      case True
      with c(4) have "em = 12" by simp
      then show ?thesis using v y
        by (cases now) (auto simp: date_of_def valid_datetime_def dt_year_def days_in_month_def split: if_splits)
    next
      case False
      with \<open>\<not> ((y, em + 1, 1) \<le> date_of now \<and> rest \<noteq> [])\<close>
      have "date_of now < (y, em + 1, 1)" by (simp del: less_prod_simp less_eq_prod_simp)
      then show ?thesis using v y
        by (cases now) (auto simp: date_of_def valid_datetime_def dt_year_def; metis less_le)
    qed
    have e_today: "e = date_of now"
      using today by (auto simp: e_def after_now_valid[OF v] simp del: less_prod_simp less_eq_prod_simp)
    have "emitted now y rest = []"
    proof (cases rest)
      case Nil
      then show ?thesis by simp
    next
      case (Cons r rs)
      obtain n' sm' em' where r: "r = (n', sm', em')" by (cases r) auto
      from c(4) Cons r have "sm' = em + 1" by simp
      moreover from False Cons have "date_of now < (y, em + 1, 1)"
        by (simp del: less_prod_simp less_eq_prod_simp)
      ultimately show ?thesis unfolding Cons r
        by (simp add: after_now_valid[OF v] del: less_prod_simp less_eq_prod_simp)
    qed
    then show ?thesis unfolding em by (simp add: e_today q_end_def)
  qed
qed

lemma year_loop_emitted:
  "\<forall>y \<in> set years. 1 \<le> y \<and> y \<le> 9999 \<Longrightarrow>
   year_loop now years acc = Inr (acc @ map render_quarter (quarter_dates now years))"
proof (induction years arbitrary: acc)
  case Nil
  then show ?case by (simp add: quarter_dates_def)
next
  case (Cons y years)
  have ok: "months_ok quarter_months"
    by (rule contig_months_ok[OF contig_quarter_months]) simp
  from Cons.prems have y: "1 \<le> y" "y \<le> 9999" by auto
  show ?case
    using Cons.IH Cons.prems
    by (simp add: quarter_loop_emitted[OF y ok] quarter_dates_def)
qed

lemma ordered_after_append:
  "ordered_after lo xs \<Longrightarrow> \<forall>q \<in> set xs. q_end q \<le> hi \<Longrightarrow> lo \<le> hi \<Longrightarrow> ordered_after hi ys \<Longrightarrow>
   ordered_after lo (xs @ ys)"
proof (induction xs arbitrary: lo)
  case Nil
  then show ?case by (cases ys) (auto simp del: less_prod_simp less_eq_prod_simp)
next
  case (Cons x xs)
  then show ?case by (auto simp del: less_prod_simp less_eq_prod_simp)
qed

lemma ordered_after_weaken: "ordered_after hi ys \<Longrightarrow> lo \<le> hi \<Longrightarrow> ordered_after lo ys"
  by (cases ys) (auto simp del: less_prod_simp less_eq_prod_simp)

lemma quarter_dates_ordered:
  "sorted_wrt (<) years \<Longrightarrow> \<forall>y \<in> set years. lo < (y, 1, 1) \<Longrightarrow>
   ordered_after lo (quarter_dates now years)"
proof (induction years arbitrary: lo)
  case Nil
  then show ?case by (simp add: quarter_dates_def)
next
  case (Cons y years)
  from Cons.prems have lo: "lo < (y, 1, 1)" by simp
  note e = emitted_ordered[OF contig_quarter_months lo, of now]
  have "\<forall>y' \<in> set years. (y, 12, 31) < (y', 1, 1)" using Cons.prems(1) by auto
  with Cons.IH Cons.prems(1) have r: "ordered_after (y, 12, 31) (quarter_dates now years)" by simp
  have "lo \<le> (y, 12, 31)" using lo by (cases lo) auto
  from ordered_after_append[OF conjunct1[OF e] conjunct2[OF e] this r]
  show ?case by (simp add: quarter_dates_def)
qed

lemma ordered_after_sorted:
  "ordered_after lo ds \<Longrightarrow>
   sorted_wrt (\<lambda>q r. q_end q < q_start r) ds \<and> (\<forall>q \<in> set ds. lo < q_start q \<and> q_start q \<le> q_end q)"
proof (induction ds arbitrary: lo)
  case Nil
  then show ?case by simp
next
  case (Cons d ds)
  from Cons.prems have a: "lo < q_start d" "q_start d \<le> q_end d" "ordered_after (q_end d) ds" by auto
  from Cons.IH[OF a(3)] a show ?case
    by (auto simp del: less_prod_simp less_eq_prod_simp)
qed

lemma quarter_dates_not_future:
  "\<forall>q \<in> set (quarter_dates now years). q_start q \<le> date_of now \<and> q_end q \<le> date_of now"
  using emitted_not_future by (auto simp: quarter_dates_def simp del: less_prod_simp less_eq_prod_simp)

lemma quarter_dates_last_is_today:
  assumes "valid_datetime now" "start_year \<le> dt_year now"
  shows "quarter_dates now [start_year..dt_year now] \<noteq> [] \<and>
         q_end (last (quarter_dates now [start_year..dt_year now])) = date_of now"
proof -
  have u: "[start_year..dt_year now] = [start_year..dt_year now - 1] @ [dt_year now]"
    using assms(2) by (rule upto_rec2)
  have "(dt_year now, 1, 1) \<le> date_of now"
    using assms(1) by (cases now) (auto simp: date_of_def valid_datetime_def dt_year_def)
  from emitted_last_is_today[OF assms(1) refl contig_quarter_months _ this]
  have "emitted now (dt_year now) quarter_months \<noteq> [] \<and>
        q_end (last (emitted now (dt_year now) quarter_months)) = date_of now"
    by (simp add: quarter_months_def)
  then show ?thesis by (subst (1 2) u) (simp add: quarter_dates_def)
qed

lemma digit_cases:
  assumes "0 \<le> d" "d \<le> 9"
  shows "d = 0 \<or> d = 1 \<or> d = 2 \<or> d = 3 \<or> d = 4 \<or> d = 5 \<or> d = 6 \<or> d = 7 \<or> d = 8 \<or> d = (9::int)"
  using assms by arith

lemma digit_val_digit_char:
  assumes "0 \<le> d" "d \<le> 9"
  shows "digit_val (digit_char d) = d"
  using digit_cases[OF assms] by (elim disjE) (simp_all add: digit_char_def digit_val_def)

lemma digit_char_not_dash:
  assumes "0 \<le> d" "d \<le> 9"
  shows "digit_char d \<noteq> CHR ''-''"
  using digit_cases[OF assms] by (elim disjE) (simp_all add: digit_char_def)

lemma read_num_snoc: "read_num (s @ [c]) = 10 * read_num s + digit_val c"
  by (simp add: read_num_def)

lemma read_str_nat: "read_num (str_nat n) = int n"
proof (induction n rule: str_nat.induct)
  case (1 n)
  show ?case
  proof (cases "n < 10")
    case True
    then show ?thesis
      by (subst str_nat.simps) (simp add: read_num_def digit_val_digit_char)
  next
    case False
    have "digit_val (digit_char (int (n mod 10))) = int (n mod 10)"
      by (rule digit_val_digit_char) simp_all
    moreover have "10 * int (n div 10) + int (n mod 10) = int n"
      by (simp add: of_nat_div of_nat_mod)
    ultimately show ?thesis
      using False "1.IH" by (subst str_nat.simps) (simp add: read_num_snoc)
  qed
qed

lemma str_nat_no_dash: "\<forall>c \<in> set (str_nat n). c \<noteq> CHR ''-''"
proof (induction n rule: str_nat.induct)
  case (1 n)
  show ?case
  proof (cases "n < 10")
    case True
    then show ?thesis
      by (subst str_nat.simps) (simp add: digit_char_not_dash)
  next
    case False
    have "digit_char (int (n mod 10)) \<noteq> CHR ''-''"
      by (rule digit_char_not_dash) simp_all
    then show ?thesis
      using False "1.IH" by (subst str_nat.simps) simp
  qed
qed

lemma read_digits2:
  assumes "0 \<le> a" "a \<le> 9" "0 \<le> b" "b \<le> 9"
  shows "read_num [digit_char a, digit_char b] = 10 * a + b"
  using assms by (simp add: read_num_def digit_val_digit_char)

lemma read_pad2:
  assumes n: "0 \<le> n" "n \<le> 99"
  shows "read_num (pad2 n) = n"
proof -
  define a where "a = n div 10 mod 10"
  define b where "b = n mod 10"
  have ba: "0 \<le> a" "a \<le> 9" and bb: "0 \<le> b" "b \<le> 9" by (simp_all add: a_def b_def)
  have "n div 10 < 10" using n by simp
  then have "n div 10 mod 10 = n div 10" using n by simp
  then have "10 * a + b = n" by (simp add: a_def b_def)
  moreover have "pad2 n = [digit_char a, digit_char b]" by (simp only: pad2_def a_def b_def)
  ultimately show ?thesis using read_digits2[OF ba bb] by simp
qed

lemma length_pad2: "length (pad2 n) = 2" by (simp add: pad2_def)

lemma read_fmt_date_tuple:
  assumes b: "0 \<le> y" "0 \<le> m" "m \<le> 99" "0 \<le> d" "d \<le> 99"
  shows "read_date (fmt_date (y, m, d)) = (y, m, d)"
proof -
  let ?y = "str_nat (nat y)"
  have f: "fmt_date (y, m, d) = ?y @ CHR ''-'' # (pad2 m @ CHR ''-'' # pad2 d)"
    using b(1) by (simp add: fmt_date_def str_int_def)
  have t: "takeWhile (\<lambda>c. c \<noteq> CHR ''-'') (?y @ CHR ''-'' # (pad2 m @ CHR ''-'' # pad2 d)) = ?y"
    using str_nat_no_dash[of "nat y"] by (simp add: takeWhile_append2)
  have "read_num ?y = y" using b(1) by (simp add: read_str_nat)
  then show ?thesis
    unfolding f read_date_def t Let_def
    by (simp add: length_pad2 read_pad2 b)
qed

lemma read_fmt_date: "printable_date dd \<Longrightarrow> read_date (fmt_date dd) = dd"
  by (cases dd) (simp add: printable_date_def read_fmt_date_tuple)

lemma emitted_printable:
  assumes "valid_datetime now" "1 \<le> y" "y \<le> 9999"
  shows "months_ok qms \<Longrightarrow>
    \<forall>q \<in> set (emitted now y qms). printable_date (q_start q) \<and> printable_date (q_end q)"
proof (induction qms)
  case Nil
  then show ?case by simp
next
  case (Cons q qms)
  obtain n sm em where q: "q = (n, sm, em)" by (cases q) auto
  from Cons.prems q have m: "1 \<le> sm" "sm \<le> 12" "1 \<le> em" "em \<le> 12" and ok: "months_ok qms"
    by (auto simp: months_ok_def)
  have d: "0 \<le> days_in_month y em" "days_in_month y em \<le> 99" by (simp_all add: days_in_month_def)
  have n: "printable_date (date_of now)"
    using assms(1) by (cases now) (auto simp: valid_datetime_def date_of_def printable_date_def days_in_month_def split: if_splits)
  show ?case
    using Cons.IH[OF ok] assms(2,3) m d n unfolding q
    by (auto simp: q_start_def q_end_def printable_date_def simp del: less_prod_simp less_eq_prod_simp)
qed

lemma quarter_dates_printable:
  assumes "valid_datetime now" "\<forall>y \<in> set years. 1 \<le> y \<and> y \<le> 9999"
  shows "\<forall>q \<in> set (quarter_dates now years). printable_date (q_start q) \<and> printable_date (q_end q)"
proof -
  have ok: "months_ok quarter_months"
    by (rule contig_months_ok[OF contig_quarter_months]) simp
  show ?thesis
    using assms(2) emitted_printable[OF assms(1) _ _ ok]
    by (auto simp: quarter_dates_def)
qed

lemma generate_returns:
  assumes "valid_datetime now" "1 \<le> start_year"
  shows "generate_quarterly_ranges start_year None now =
         Inr (map render_quarter (quarter_dates now [start_year..dt_year now]))"
proof -
  have "dt_year now \<le> 9999" using assms(1) by (cases now) (auto simp: valid_datetime_def dt_year_def)
  then have "\<forall>y \<in> set [start_year..dt_year now]. 1 \<le> y \<and> y \<le> 9999" using assms(2) by auto
  from year_loop_emitted[OF this, of now "[]"] show ?thesis
    by (simp add: generate_quarterly_ranges_def)
qed

lemma generate_raises:
  assumes "start_year < 1" "start_year \<le> dt_year now"
  shows "\<exists>e. generate_quarterly_ranges start_year None now = Inl e"
proof -
  have u: "[start_year..dt_year now] = start_year # [start_year + 1..dt_year now]"
    using assms(2) by (simp add: upto_rec1)
  from assms(1) obtain e where "quarter_loop now start_year quarter_months [] = Inl e"
    using year_out_of_range[of start_year now "[]"] by auto
  then show ?thesis by (simp add: generate_quarterly_ranges_def u)
qed

lemma generate_raises_ValueError:
  assumes "start_year < 1" "fits_c_int start_year" "start_year \<le> dt_year now"
  shows "generate_quarterly_ranges start_year None now = Inl ValueError"
proof -
  have u: "[start_year..dt_year now] = start_year # [start_year + 1..dt_year now]"
    using assms(3) by (simp add: upto_rec1)
  show ?thesis
    by (simp add: generate_quarterly_ranges_def u year_below_one[OF assms(1,2)])
qed

lemma read_rendered:
  assumes "printable_date (q_start q)" "printable_date (q_end q)"
  shows "read_date (fst (snd (render_quarter q))) = q_start q"
    and "read_date (snd (snd (render_quarter q))) = q_end q"
  using assms by (cases q; simp add: render_quarter_def q_start_def q_end_def read_fmt_date)+

text \<open>
  C1 (as amended). For every start year from 1 up to the current year and every moment
  the clock can show, \<open>generate_quarterly_ranges\<close> returns a list of quarters; in it
  every quarter's start date is not after its end date, and every quarter ends before
  each later one starts. The dates are read back from the returned strings.
\<close>

theorem quarterly_ranges_chronological:
  assumes "valid_datetime now" "1 \<le> start_year" "start_year \<le> dt_year now"
  shows "\<exists>qs. generate_quarterly_ranges start_year None now = Inr qs \<and>
           (\<forall>(l, s, e) \<in> set qs. read_date s \<le> read_date e) \<and>
           sorted_wrt (\<lambda>(l, s, e) (l', s', e'). read_date e < read_date s') qs"
proof -
  let ?years = "[start_year..dt_year now]"
  let ?ds = "quarter_dates now ?years"
  have "dt_year now \<le> 9999" using assms(1) by (cases now) (auto simp: valid_datetime_def dt_year_def)
  then have yr: "\<forall>y \<in> set ?years. 1 \<le> y \<and> y \<le> 9999" using assms(2) by auto
  note p = quarter_dates_printable[OF assms(1) yr]
  have "sorted_wrt (<) ?years"
    using sorted_upto distinct_upto by (simp add: strict_sorted_iff)
  moreover have "\<forall>y \<in> set ?years. (0, 0, 0) < (y, 1, 1)" using assms(2) by auto
  ultimately have "ordered_after (0, 0, 0) ?ds" by (rule quarter_dates_ordered)
  from ordered_after_sorted[OF this]
  have s: "sorted_wrt (\<lambda>q r. q_end q < q_start r) ?ds" and o: "\<forall>q \<in> set ?ds. q_start q \<le> q_end q"
    by auto
  have 1: "\<forall>(l, s, e) \<in> set (map render_quarter ?ds). read_date s \<le> read_date e"
    using o p by (simp add: case_prod_beta read_rendered del: less_eq_prod_simp)
  have 2: "sorted_wrt (\<lambda>(l, s, e) (l', s', e'). read_date e < read_date s') (map render_quarter ?ds)"
    unfolding sorted_wrt_map case_prod_beta
    by (rule sorted_wrt_mono_rel[OF _ s]) (use p in \<open>simp add: read_rendered del: less_prod_simp\<close>)
  show ?thesis
    using generate_returns[OF assms(1,2)] 1 2 by blast
qed

text \<open>The theorem at work on 4 November 2025, collecting from 2022.\<close>

theorem quarterly_ranges_chronological_witness:
  "valid_datetime (2025, 11, 4, 9, 30, 0, 0) \<and> (1::int) \<le> 2022 \<and>
   (2022::int) \<le> dt_year (2025, 11, 4, 9, 30, 0, 0) \<and>
   (\<exists>qs. generate_quarterly_ranges 2022 None (2025, 11, 4, 9, 30, 0, 0) = Inr qs \<and>
      (\<forall>(l, s, e) \<in> set qs. read_date s \<le> read_date e) \<and>
      sorted_wrt (\<lambda>(l, s, e) (l', s', e'). read_date e < read_date s') qs)"
proof -
  have v: "valid_datetime (2025, 11, 4, 9, 30, 0, 0)"
    by (simp add: valid_datetime_def days_in_month_def)
  have s: "(1::int) \<le> 2022" by simp
  have c: "(2022::int) \<le> dt_year (2025, 11, 4, 9, 30, 0, 0)" by (simp add: dt_year_def)
  from quarterly_ranges_chronological[OF v s c] v c show ?thesis by simp
qed

text \<open>
  C1 as stated fails for a start year below 1: year 0 is not a year of \<open>datetime\<close>, and
  the first \<open>datetime(0, 1, 1)\<close> raises ValueError, so nothing is returned.
\<close>

theorem quarterly_ranges_year_zero_raises:
  "valid_datetime (2022, 2, 15, 12, 0, 0, 0) \<and> (0::int) \<le> dt_year (2022, 2, 15, 12, 0, 0, 0) \<and>
   generate_quarterly_ranges 0 None (2022, 2, 15, 12, 0, 0, 0) = Inl ValueError"
proof -
  have "generate_quarterly_ranges 0 None (2022, 2, 15, 12, 0, 0, 0) = Inl ValueError"
    by (rule generate_raises_ValueError) (simp_all add: dt_year_def fits_c_int_def)
  then show ?thesis by (simp add: valid_datetime_def days_in_month_def dt_year_def is_leap_def)
qed

lemma generate_on_day:
  assumes v: "valid_datetime now" and d: "date_of now = (2022, 2, 15)"
  shows "generate_quarterly_ranges 2022 None now = Inr [(''2022_Q1'', ''2022-01-01'', ''2022-02-15'')]"
proof -
  obtain h mi s us where now: "now = (2022, 2, 15, h, mi, s, us)"
    using d by (cases now) (auto simp: date_of_def)
  have y: "dt_year now = 2022" by (simp add: now dt_year_def)
  have "quarter_dates now [2022..2022] = [(''2022_Q1'', (2022, 1, 1), (2022, 2, 15))]"
    using v by (simp add: now quarter_dates_def quarter_months_def valid_datetime_def date_of_def
        days_in_month_def str_int_def str_nat.simps digit_char_def)
  then show ?thesis
    using generate_returns[OF v, of 2022]
    by (simp add: y render_quarter_def fmt_date_def str_int_def str_nat.simps pad2_def digit_char_def)
qed

text \<open>
  C2. Whatever the start year and the moment, no returned quarter starts or ends after
  the current date, and when the start year is not after the current year the last
  quarter ends exactly on the current date; the call can only fail for a start year
  below 1. On 2022-02-15 with start year 2022 the result is the single quarter 2022_Q1
  from 2022-01-01 to 2022-02-15, so there is no 2022_Q2.
\<close>

theorem quarterly_ranges_clipped:
  assumes "valid_datetime now"
  shows "(case generate_quarterly_ranges start_year None now of
            Inl err \<Rightarrow> start_year < 1
          | Inr qs \<Rightarrow>
              (\<forall>(l, s, e) \<in> set qs. read_date s \<le> date_of now \<and> read_date e \<le> date_of now) \<and>
              (start_year \<le> dt_year now \<longrightarrow> qs \<noteq> [] \<and> snd (snd (last qs)) = strftime_ymd now)) \<and>
         (date_of now = (2022, 2, 15) \<longrightarrow>
            generate_quarterly_ranges 2022 None now =
              Inr [(''2022_Q1'', ''2022-01-01'', ''2022-02-15'')])"
proof (intro conjI impI)
  show "case generate_quarterly_ranges start_year None now of
            Inl err \<Rightarrow> start_year < 1
          | Inr qs \<Rightarrow>
              (\<forall>(l, s, e) \<in> set qs. read_date s \<le> date_of now \<and> read_date e \<le> date_of now) \<and>
              (start_year \<le> dt_year now \<longrightarrow> qs \<noteq> [] \<and> snd (snd (last qs)) = strftime_ymd now)"
  proof (cases "1 \<le> start_year")
    case True
    let ?years = "[start_year..dt_year now]"
    let ?ds = "quarter_dates now ?years"
    have "dt_year now \<le> 9999" using assms by (cases now) (auto simp: valid_datetime_def dt_year_def)
    then have yr: "\<forall>y \<in> set ?years. 1 \<le> y \<and> y \<le> 9999" using True by auto
    note p = quarter_dates_printable[OF assms yr]
    have 1: "\<forall>(l, s, e) \<in> set (map render_quarter ?ds). read_date s \<le> date_of now \<and> read_date e \<le> date_of now"
      using quarter_dates_not_future[of now ?years] p
      by (simp add: case_prod_beta read_rendered del: less_eq_prod_simp)
    have 2: "map render_quarter ?ds \<noteq> [] \<and> snd (snd (last (map render_quarter ?ds))) = strftime_ymd now"
      if "start_year \<le> dt_year now"
    proof -
      from quarter_dates_last_is_today[OF assms that]
      have ne: "?ds \<noteq> []" and l: "q_end (last ?ds) = date_of now" by auto
      obtain a b c where abc: "last ?ds = (a, b, c)" by (cases "last ?ds") auto
      with l have "c = date_of now" by (simp add: q_end_def)
      with ne abc show ?thesis
        by (simp add: last_map render_quarter_def strftime_ymd_def)
    qed
    show ?thesis using 1 2 by (simp add: generate_returns[OF assms True])
  next
    case False
    have "1 \<le> dt_year now" using assms by (cases now) (auto simp: valid_datetime_def dt_year_def)
    with False obtain e where "generate_quarterly_ranges start_year None now = Inl e"
      using generate_raises[of start_year now] by auto
    with False show ?thesis by simp
  qed
next
  assume "date_of now = (2022, 2, 15)"
  with assms show "generate_quarterly_ranges 2022 None now = Inr [(''2022_Q1'', ''2022-01-01'', ''2022-02-15'')]"
    by (rule generate_on_day)
qed

text \<open>The theorem at work at noon of 15 February 2022.\<close>

theorem quarterly_ranges_clipped_witness:
  "valid_datetime (2022, 2, 15, 12, 0, 0, 0) \<and>
   date_of (2022, 2, 15, 12, 0, 0, 0) = (2022, 2, 15) \<and>
   generate_quarterly_ranges 2022 None (2022, 2, 15, 12, 0, 0, 0) =
     Inr [(''2022_Q1'', ''2022-01-01'', ''2022-02-15'')]"
proof -
  have v: "valid_datetime (2022, 2, 15, 12, 0, 0, 0)"
    by (simp add: valid_datetime_def days_in_month_def is_leap_def)
  have d: "date_of (2022, 2, 15, 12, 0, 0, 0) = (2022, 2, 15)" by (simp add: date_of_def)
  from quarterly_ranges_clipped[OF v, of 2022] d
  have "generate_quarterly_ranges 2022 None (2022, 2, 15, 12, 0, 0, 0) =
     Inr [(''2022_Q1'', ''2022-01-01'', ''2022-02-15'')]" by simp
  with v d show ?thesis by simp
qed

lemma tasks_quarter_loop_eq:
  "tasks_quarter_loop now year qms quarters = quarter_loop now year qms quarters"
proof (induction qms arbitrary: quarters)
  case Nil
  then show ?case by simp
next
  case (Cons q qms)
  obtain n sm em where q: "q = (n, sm, em)" by (cases q) auto
  show ?case unfolding q
    by (simp add: Cons.IH Let_def split: sum.splits del: less_prod_simp)
qed

lemma tasks_year_loop_eq:
  "tasks_year_loop now years quarters = year_loop now years quarters"
  by (induction years arbitrary: quarters)
     (simp_all add: tasks_quarter_loop_eq tasks_quarter_months_def quarter_months_def split: sum.splits)

text \<open>
  C10. At one fixed moment the generator of \<open>generate_tasks.py\<close> and the generator of
  \<open>collect_news.py\<close> with \<open>end_year\<close> left out give the same result for every start
  year: the same list of (label, start, end) triples, or the same exception.
\<close>

theorem task_quarters_agree:
  "tasks_generate_quarterly_ranges start_year now = generate_quarterly_ranges start_year None now"
  by (simp add: tasks_generate_quarterly_ranges_def generate_quarterly_ranges_def tasks_year_loop_eq)

text \<open>The year is printed without leading zeros.\<close>

lemma strftime_year_999: "strftime_ymd (999, 1, 1, 0, 0, 0, 0) = ''999-01-01''"
  by (simp add: strftime_ymd_def date_of_def fmt_date_def str_int_def str_nat.simps pad2_def
      digit_char_def)

lemma mask_rows_map: "mask_rows df (map p df) = filter p df"
  by (induction df) (simp_all add: mask_rows_def)

lemma map2_map: "map2 f (map g xs) (map h xs) = map (\<lambda>x. f (g x) (h x)) xs"
  by (induction xs) simp_all

lemma py_in_sublist: "py_in phrase s \<longleftrightarrow> (\<exists>before after. s = before @ phrase @ after)"
proof -
  have "py_in phrase s \<longleftrightarrow> sublist phrase s"
    by (induction s) (simp_all add: sublist_Cons_right)
  then show ?thesis by (simp add: sublist_def)
qed

lemma str_contains_iff:
  "str_contains c phrase \<longleftrightarrow> (\<exists>s before after. c = Some s \<and> s = before @ phrase @ after)"
  by (cases c) (simp_all add: str_contains_def py_in_sublist)

text \<open>
  C5. With exact-phrase matching enabled the filter keeps, in their order, exactly the
  rows whose title or description is a string in which the phrase occurs as a run of
  consecutive code points (nothing is normalised, nothing is read as a pattern); with it
  disabled the rows come back unchanged. For the phrase "cheongdo-gun" (U+CCAD U+B3C4
  U+AD70) the title "cheongdo gunmin haengsa", where a space separates the second and
  third syllable, is dropped and the title "cheongdo-gun sosik" is kept.
\<close>

theorem filter_exact_phrase_substring:
  "filter_exact_phrase cfg df phrase =
     (if exact_phrase_match cfg
      then filter (\<lambda>r. (\<exists>s before after. title r = Some s \<and> s = before @ phrase @ after) \<or>
                       (\<exists>s before after. description r = Some s \<and> s = before @ phrase @ after)) df
      else df) \<and>
   filter_exact_phrase get_default_config
     [titled_row [52397, 46020, 32, 44400, 48124, 32, 54665, 49324],
      titled_row [52397, 46020, 44400, 32, 49548, 49885]]
     [52397, 46020, 44400]
   = [titled_row [52397, 46020, 44400, 32, 49548, 49885]]"
proof
  show "filter_exact_phrase cfg df phrase =
     (if exact_phrase_match cfg
      then filter (\<lambda>r. (\<exists>s before after. title r = Some s \<and> s = before @ phrase @ after) \<or>
                       (\<exists>s before after. description r = Some s \<and> s = before @ phrase @ after)) df
      else df)"
    by (simp add: filter_exact_phrase_def map2_map mask_rows_map str_contains_iff del: zip_map_map)
  show "filter_exact_phrase get_default_config
     [titled_row [52397, 46020, 32, 44400, 48124, 32, 54665, 49324],
      titled_row [52397, 46020, 44400, 32, 49548, 49885]]
     [52397, 46020, 44400]
   = [titled_row [52397, 46020, 44400, 32, 49548, 49885]]"
    by (simp add: filter_exact_phrase_def get_default_config_def titled_row_def mask_rows_def
        str_contains_def)
qed

text \<open>The theorem at work on a row whose description, not its title, holds the phrase.\<close>

theorem filter_exact_phrase_substring_witness:
  "filter_exact_phrase get_default_config
     [(titled_row [65, 66])\<lparr>description := Some [67, 52397, 46020, 44400, 68]\<rparr>,
      (titled_row [65, 66])\<lparr>description := None\<rparr>]
     [52397, 46020, 44400]
   = [(titled_row [65, 66])\<lparr>description := Some [67, 52397, 46020, 44400, 68]\<rparr>]"
proof -
  have a: "[67, 52397, 46020, 44400, 68] = [67] @ [52397, 46020, 44400] @ [68::nat]" by simp
  have b: "\<not> (\<exists>before after. [65, 66] = before @ [52397, 46020, 44400] @ (after :: nat list))"
  proof
    assume "\<exists>before after. [65, 66] = before @ [52397, 46020, 44400] @ (after :: nat list)"
    then obtain before after where "[65, 66] = before @ [52397, 46020, 44400] @ (after :: nat list)" by blast
    then have "length [65, 66::nat] = length (before @ [52397, 46020, 44400] @ after)" by simp
    then show False by simp
  qed
  show ?thesis
    using conjunct1[OF filter_exact_phrase_substring[of get_default_config
        "[(titled_row [65, 66])\<lparr>description := Some [67, 52397, 46020, 44400, 68]\<rparr>,
          (titled_row [65, 66])\<lparr>description := None\<rparr>]" "[52397, 46020, 44400]"]] b
    by (auto simp: get_default_config_def titled_row_def intro: exI[of _ "[67]"])
qed

lemma retry_loop_all_fail:
  assumes d: "0 \<le> delay"
  shows "\<forall>i. k \<le> i \<and> i < m \<longrightarrow> http i = RequestException \<Longrightarrow> k < m \<Longrightarrow>
    retry_loop (int m) delay http [k..<m] = Inr (Some \<lparr>total = 0, items = []\<rparr>, m - k, m - k - 1)"
proof (induction "m - k" arbitrary: k)
  case 0
  then show ?case by simp
next
  case (Suc n)
  have u: "[k..<m] = k # [Suc k..<m]" using Suc.prems(2) by (rule upt_conv_Cons)
  have f: "http k = RequestException" using Suc.prems by simp
  show ?case
  proof (cases "Suc k < m")
    case True
    have "retry_loop (int m) delay http [Suc k..<m] =
            Inr (Some \<lparr>total = 0, items = []\<rparr>, m - Suc k, m - Suc k - 1)"
      using Suc.hyps(2) Suc.prems(1) True by (intro Suc.hyps(1)) auto
    then show ?thesis using True d by (auto simp: u f time_sleep_def)
  next
    case False
    with Suc.prems(2) have "m = Suc k" by simp
    then show ?thesis by (simp add: u f)
  qed
qed

lemma retry_loop_first_success:
  assumes d: "0 \<le> delay" and js: "http j = Response js" and jm: "j < m"
  shows "\<forall>i. k \<le> i \<and> i < j \<longrightarrow> http i = RequestException \<Longrightarrow> k \<le> j \<Longrightarrow>
    retry_loop (int m) delay http [k..<m] = Inr (Some js, j - k + 1, j - k)"
proof (induction "j - k" arbitrary: k)
  case 0
  then have "k = j" by simp
  moreover have "[j..<m] = j # [Suc j..<m]" using jm by (rule upt_conv_Cons)
  ultimately show ?case using js by simp
next
  case (Suc n)
  then have lt: "k < j" by simp
  with jm have "k < m" by simp
  then have u: "[k..<m] = k # [Suc k..<m]" by (rule upt_conv_Cons)
  have f: "http k = RequestException" using Suc.prems(1) lt by simp
  have "retry_loop (int m) delay http [Suc k..<m] = Inr (Some js, j - Suc k + 1, j - Suc k)"
    using Suc.hyps(2) Suc.prems lt by (intro Suc.hyps(1)) auto
  moreover have "Suc k < m" using lt jm by simp
  ultimately show ?case using lt d by (auto simp: u f time_sleep_def)
qed

text \<open>
  With at least one attempt configured and a delay that is not negative, a call whose
  attempts all raise sends \<open>retry_count\<close> requests, sleeps between them and returns the
  empty result; a call whose attempt \<open>j\<close> is the first to succeed returns that response
  after \<open>j + 1\<close> requests.
\<close>

lemma naver_search_retries:
  assumes "1 \<le> retry_count cfg" "0 \<le> retry_delay cfg"
  shows "(\<forall>i < nat (retry_count cfg). http i = RequestException) \<Longrightarrow>
           naver_search cfg http =
             Inr (Some \<lparr>total = 0, items = []\<rparr>, nat (retry_count cfg), nat (retry_count cfg) - 1)"
    and "j < nat (retry_count cfg) \<Longrightarrow> http j = Response js \<Longrightarrow> (\<forall>i < j. http i = RequestException) \<Longrightarrow>
           naver_search cfg http = Inr (Some js, j + 1, j)"
proof -
  have m: "int (nat (retry_count cfg)) = retry_count cfg" "0 < nat (retry_count cfg)"
    using assms by simp_all
  show "naver_search cfg http =
          Inr (Some \<lparr>total = 0, items = []\<rparr>, nat (retry_count cfg), nat (retry_count cfg) - 1)"
    if "\<forall>i < nat (retry_count cfg). http i = RequestException"
    using retry_loop_all_fail[OF assms(2), of 0 "nat (retry_count cfg)" http] that m
    by (simp add: naver_search_def)
  show "naver_search cfg http = Inr (Some js, j + 1, j)"
    if "j < nat (retry_count cfg)" "http j = Response js" "\<forall>i < j. http i = RequestException"
    using retry_loop_first_success[where delay="retry_delay cfg" and http=http and j=j and js=js
        and m="nat (retry_count cfg)" and k=0] assms(2) that m
    by (simp add: naver_search_def)
qed

lemma naver_search_no_attempt:
  "retry_count cfg \<le> 0 \<Longrightarrow> naver_search cfg http = Inr (None, 0, 0)"
  by (simp add: naver_search_def)

text \<open>
  C6 fails for a configured retry count of 0: the loop body never runs, no request is
  sent, and the function ends without a \<open>return\<close>, so the caller gets \<open>None\<close> and not
  the empty result; \<open>fetch_news_in_quarter\<close> then raises AttributeError.
\<close>

theorem naver_search_zero_retries_returns_none:
  "naver_search (get_default_config\<lparr>retry_count := 0\<rparr>) (\<lambda>i. RequestException) = Inr (None, 0, 0) \<and>
   fetch_items (get_default_config\<lparr>retry_count := 0\<rparr>) float_ceil
     (\<lambda>start. search_result
        (naver_search (get_default_config\<lparr>retry_count := 0\<rparr>) (\<lambda>i. RequestException)))
   = (Inl AttributeError :: py_error + (nat list \<times> int list))"
  by (simp add: naver_search_def fetch_items_def search_result_def)

lemma csv_filter: "filter (\<lambda>(f, l). suffix ''.csv'' f) entries = filter is_csv entries"
  by (induction entries) (auto simp: is_csv_def)

lemma read_all_failed:
  "\<forall>(f, l) \<in> set entries. l = LoadFailed \<Longrightarrow> read_all entries = []"
  by (induction entries rule: read_all.induct) auto

text \<open>
  C7 (as amended). When the output directory can be created, the input directory can be
  listed and none of its \<open>.csv\<close> files loads (there is none, or every one fails to
  load), \<open>merge_all_parts\<close> raises nothing: it returns \<open>None\<close>, the process ends with
  exit status 0, and no merged file is written. This differs from the case where part
  files load but hold no rows: then a merged file with no rows is written and its path
  returned.
\<close>

theorem merge_without_input_returns_none:
  "((\<forall>(f, l) \<in> set entries. suffix ''.csv'' f \<longrightarrow> l = LoadFailed) \<longrightarrow>
      merge_all_parts cfg None (Inr entries) to_csv output_file =
        Inr \<lparr>returned = None, written = None, duplicates_removed = None\<rparr> \<and>
      exit_status (merge_all_parts cfg None (Inr entries) to_csv output_file) = 0) \<and>
   (read_all (filter is_csv entries) \<noteq> [] \<and> loaded_rows entries = [] \<and>
    (remove_duplicates cfg \<longrightarrow> column (duplicate_check_column cfg) \<noteq> None) \<longrightarrow>
      merge_all_parts cfg None (Inr entries) None output_file =
        Inr \<lparr>returned = Some output_file, written = Some (output_file, []),
             duplicates_removed = (if remove_duplicates cfg then Some 0 else None)\<rparr>)"
proof (intro conjI impI)
  assume a: "\<forall>(f, l) \<in> set entries. suffix ''.csv'' f \<longrightarrow> l = LoadFailed"
  have "\<forall>(f, l) \<in> set (filter is_csv entries). l = LoadFailed"
    using a by (auto simp: is_csv_def)
  then have "read_all (filter is_csv entries) = []" by (rule read_all_failed)
  then show 1: "merge_all_parts cfg None (Inr entries) to_csv output_file =
           Inr \<lparr>returned = None, written = None, duplicates_removed = None\<rparr>"
    by (simp add: merge_all_parts_def csv_filter Let_def)
  then show "exit_status (merge_all_parts cfg None (Inr entries) to_csv output_file) = 0"
    by (simp add: exit_status_def)
next
  assume a: "read_all (filter is_csv entries) \<noteq> [] \<and> loaded_rows entries = [] \<and>
    (remove_duplicates cfg \<longrightarrow> column (duplicate_check_column cfg) \<noteq> None)"
  then have ne: "filter is_csv entries \<noteq> []" by auto
  from a have e: "concat (read_all (filter is_csv entries)) = []" by (simp add: loaded_rows_def)
  show "merge_all_parts cfg None (Inr entries) None output_file =
        Inr \<lparr>returned = Some output_file, written = Some (output_file, []),
             duplicates_removed = (if remove_duplicates cfg then Some 0 else None)\<rparr>"
  proof (cases "remove_duplicates cfg")
    case True
    with a obtain key where "column (duplicate_check_column cfg) = Some key" by auto
    with True a ne show ?thesis
      by (simp add: merge_all_parts_def csv_filter Let_def drop_duplicates_def e)
  next
    case False
    with a ne show ?thesis
      by (simp add: merge_all_parts_def csv_filter Let_def e)
  qed
qed

text \<open>
  The theorem at work on a directory holding one unreadable part file and a log, and on
  a directory holding one part file without rows.
\<close>

theorem merge_without_input_returns_none_witness:
  "merge_all_parts get_default_config None
     (Inr [(''broken.csv'', LoadFailed), (''run.log'', Loaded [url_row [117] [116]])]) None ''out.csv'' =
     Inr \<lparr>returned = None, written = None, duplicates_removed = None\<rparr> \<and>
   exit_status (merge_all_parts get_default_config None
     (Inr [(''broken.csv'', LoadFailed), (''run.log'', Loaded [url_row [117] [116]])]) None ''out.csv'') = 0 \<and>
   merge_all_parts get_default_config None (Inr [(''empty.csv'', Loaded [])]) None ''out.csv'' =
     Inr \<lparr>returned = Some ''out.csv'', written = Some (''out.csv'', []),
          duplicates_removed = Some 0\<rparr>"
proof -
  have a: "\<forall>(f, l) \<in> set [(''broken.csv'', LoadFailed), (''run.log'', Loaded [url_row [117] [116]])].
          suffix ''.csv'' f \<longrightarrow> l = LoadFailed"
    by (simp add: suffix_def)
  have c: "is_csv (''empty.csv'', Loaded [])" by (simp add: is_csv_def suffix_def)
  have b: "read_all (filter is_csv [(''empty.csv'', Loaded [])]) \<noteq> [] \<and>
           loaded_rows [(''empty.csv'', Loaded [])] = [] \<and>
           (remove_duplicates get_default_config \<longrightarrow>
              column (duplicate_check_column get_default_config) \<noteq> None)"
    by (simp add: c loaded_rows_def get_default_config_def column_def)
  have r: "remove_duplicates get_default_config" by (simp add: get_default_config_def)
  note t1 = merge_without_input_returns_none[of
      "[(''broken.csv'', LoadFailed), (''run.log'', Loaded [url_row [117] [116]])]"
      get_default_config None "''out.csv''", THEN conjunct1, THEN mp, OF a]
  note t2 = merge_without_input_returns_none[of "[(''empty.csv'', Loaded [])]"
      get_default_config None "''out.csv''", THEN conjunct2, THEN mp, OF b]
  from t1 t2 r show ?thesis by (simp add: exit_status_def)
qed

text \<open>
  C7 as stated fails: with no part file in the directory nothing is raised (the program
  has no EmptyInputError to raise), and the exit status is 0, not a failure status.
\<close>

theorem merge_empty_directory_exits_zero:
  "merge_all_parts get_default_config None (Inr []) None ''out.csv'' =
     Inr \<lparr>returned = None, written = None, duplicates_removed = None\<rparr> \<and>
   exit_status (merge_all_parts get_default_config None (Inr []) None ''out.csv'') = 0"
  by (simp add: merge_all_parts_def exit_status_def)

lemma merge_missing_directory:
  "merge_all_parts cfg None (Inl FileNotFoundError) to_csv output_file = Inl FileNotFoundError \<and>
   exit_status (merge_all_parts cfg None (Inl FileNotFoundError) to_csv output_file) = 1"
  by (simp add: merge_all_parts_def exit_status_def)


lemma ddf_keys: "key ` set (drop_duplicates_from key seen xs) = key ` set xs - set seen"
  by (induction xs arbitrary: seen) auto

lemma ddf_distinct: "distinct (map key (drop_duplicates_from key seen xs))"
proof (induction xs arbitrary: seen)
  case Nil
  then show ?case by simp
next
  case (Cons x xs)
  have "key x \<notin> key ` set (drop_duplicates_from key (key x # seen) xs)"
    by (simp add: ddf_keys)
  with Cons.IH show ?case by simp
qed

lemma ddf_subseq: "subseq (drop_duplicates_from key seen xs) xs"
  by (induction xs arbitrary: seen) auto

lemma ddf_find:
  "k \<notin> set seen \<Longrightarrow>
   find (\<lambda>r. key r = k) (drop_duplicates_from key seen xs) = find (\<lambda>r. key r = k) xs"
  by (induction xs arbitrary: seen) auto

lemma ddf_length: "length (drop_duplicates_from key seen xs) \<le> length xs"
  by (induction xs arbitrary: seen) (auto intro: le_SucI)


text \<open>
  C8 (as amended). When duplicate removal is enabled in the configuration (the default),
  the configured column exists, at least one part file loads and the operating system
  raises no error, the merge writes the
  rows of the loaded files, in the order of the files and of the rows in each, with
  every row dropped whose key occurred in an earlier row: the written rows are a
  subsequence of the loaded ones, their keys are distinct, the row kept for a key is the
  first loaded row with that key, and the logged number of removed rows is the number
  of loaded rows minus the number of written rows.
\<close>

theorem merge_keeps_first_occurrence:
  assumes "remove_duplicates cfg"
    and "column (duplicate_check_column cfg) = Some key"
    and "read_all (filter is_csv entries) \<noteq> []"
  shows "\<exists>kept.
           merge_all_parts cfg None (Inr entries) None output_file =
             Inr \<lparr>returned = Some output_file, written = Some (output_file, kept),
                  duplicates_removed =
                    Some (int (length (loaded_rows entries)) - int (length kept))\<rparr> \<and>
           subseq kept (loaded_rows entries) \<and>
           distinct (map key kept) \<and>
           (\<forall>r \<in> set (loaded_rows entries).
              find (\<lambda>x. key x = key r) kept = find (\<lambda>x. key x = key r) (loaded_rows entries))"
proof -
  let ?all = "loaded_rows entries"
  let ?kept = "drop_duplicates key ?all"
  have ne: "filter is_csv entries \<noteq> []" using assms(3) by auto
  have "merge_all_parts cfg None (Inr entries) None output_file =
          Inr \<lparr>returned = Some output_file, written = Some (output_file, ?kept),
               duplicates_removed = Some (int (length ?all) - int (length ?kept))\<rparr>"
    using assms ne by (simp add: merge_all_parts_def csv_filter Let_def loaded_rows_def)
  moreover have "subseq ?kept ?all" by (simp add: drop_duplicates_def ddf_subseq)
  moreover have "distinct (map key ?kept)" by (simp add: drop_duplicates_def ddf_distinct)
  moreover have "\<forall>r \<in> set ?all. find (\<lambda>x. key x = key r) ?kept = find (\<lambda>x. key x = key r) ?all"
    by (simp add: drop_duplicates_def ddf_find)
  ultimately show ?thesis by blast
qed

text \<open>
  The theorem at work on two part files that both hold the article with url "b": the
  row of the first file is kept, the row of the second is dropped, one removal is logged.
\<close>

theorem merge_keeps_first_occurrence_witness:
  "remove_duplicates get_default_config \<and>
   column (duplicate_check_column get_default_config) = Some url \<and>
   read_all (filter is_csv
     [(''k_2022_Q1.csv'', Loaded [url_row [97] [1], url_row [98] [2]]),
      (''k_2022_Q2.csv'', Loaded [url_row [98] [3], url_row [99] [4]])]) \<noteq> [] \<and>
   (\<exists>kept.
      merge_all_parts get_default_config None (Inr
        [(''k_2022_Q1.csv'', Loaded [url_row [97] [1], url_row [98] [2]]),
      (''k_2022_Q2.csv'', Loaded [url_row [98] [3], url_row [99] [4]])]) None ''out.csv'' =
        Inr \<lparr>returned = Some ''out.csv'', written = Some (''out.csv'', kept),
             duplicates_removed =
               Some (int (length (loaded_rows
                 [(''k_2022_Q1.csv'', Loaded [url_row [97] [1], url_row [98] [2]]),
      (''k_2022_Q2.csv'', Loaded [url_row [98] [3], url_row [99] [4]])])) - int (length kept))\<rparr> \<and>
      subseq kept (loaded_rows
        [(''k_2022_Q1.csv'', Loaded [url_row [97] [1], url_row [98] [2]]),
      (''k_2022_Q2.csv'', Loaded [url_row [98] [3], url_row [99] [4]])]) \<and>
      distinct (map url kept) \<and>
      (\<forall>r \<in> set (loaded_rows
          [(''k_2022_Q1.csv'', Loaded [url_row [97] [1], url_row [98] [2]]),
      (''k_2022_Q2.csv'', Loaded [url_row [98] [3], url_row [99] [4]])]).
         find (\<lambda>x. url x = url r) kept =
         find (\<lambda>x. url x = url r) (loaded_rows
          [(''k_2022_Q1.csv'', Loaded [url_row [97] [1], url_row [98] [2]]),
      (''k_2022_Q2.csv'', Loaded [url_row [98] [3], url_row [99] [4]])]))) \<and>
   merge_all_parts get_default_config None (Inr
     [(''k_2022_Q1.csv'', Loaded [url_row [97] [1], url_row [98] [2]]),
      (''k_2022_Q2.csv'', Loaded [url_row [98] [3], url_row [99] [4]])]) None ''out.csv'' =
   Inr \<lparr>returned = Some ''out.csv'',
        written = Some (''out.csv'', [url_row [97] [1], url_row [98] [2], url_row [99] [4]]),
        duplicates_removed = Some 1\<rparr>"
proof -
  let ?entries = "[(''k_2022_Q1.csv'', Loaded [url_row [97] [1], url_row [98] [2]]),
      (''k_2022_Q2.csv'', Loaded [url_row [98] [3], url_row [99] [4]])]"
  have c: "is_csv (''k_2022_Q1.csv'', l)" "is_csv (''k_2022_Q2.csv'', l)" for l :: "news_row load"
    by (simp_all add: is_csv_def suffix_def)
  have 1: "remove_duplicates get_default_config" by (simp add: get_default_config_def)
  have 2: "column (duplicate_check_column get_default_config) = Some url"
    by (simp add: get_default_config_def column_def)
  have 3: "read_all (filter is_csv ?entries) \<noteq> []" by (simp add: c)
  note t = merge_keeps_first_occurrence[OF 1 2 3, of "''out.csv''"]
  have d: "merge_all_parts get_default_config None (Inr ?entries) None ''out.csv'' =
     Inr \<lparr>returned = Some ''out.csv'',
        written = Some (''out.csv'', [url_row [97] [1], url_row [98] [2], url_row [99] [4]]),
        duplicates_removed = Some 1\<rparr>"
    by (simp add: merge_all_parts_def get_default_config_def column_def suffix_def
        drop_duplicates_def url_row_def)
  show ?thesis
    by (rule conjI[OF 1 conjI[OF 2 conjI[OF 3 conjI[OF t d]]]])
qed

text \<open>
  C8 as stated fails when the configuration switches duplicate removal off: the merge
  then writes every loaded row, the second row for url "b" included, and logs no count.
\<close>

theorem merge_without_dedup_keeps_duplicates:
  "merge_all_parts (get_default_config\<lparr>remove_duplicates := False\<rparr>) None
     (Inr [(''k_2022_Q1.csv'', Loaded [url_row [97] [1], url_row [98] [2]]),
            (''k_2022_Q2.csv'', Loaded [url_row [98] [3], url_row [99] [4]])]) None ''out.csv'' =
   Inr \<lparr>returned = Some ''out.csv'',
        written = Some (''out.csv'',
          [url_row [97] [1], url_row [98] [2], url_row [98] [3], url_row [99] [4]]),
        duplicates_removed = None\<rparr>"
  by (simp add: merge_all_parts_def get_default_config_def suffix_def)





lemma series_cmp_mismatch:
  "snd col \<noteq> tz_aware ts \<Longrightarrow> series_cmp op col ts = Inl TypeError"
  by (simp add: series_cmp_def)

text \<open>
  Whenever one date of the frame parses and the start bound is a plain date (as the
  quarter bounds are), the comparison raises TypeError.
\<close>

lemma filter_by_date_range_tz_mismatch:
  assumes "\<exists>r \<in> set df. strptime (date r) \<noteq> None"
    and "to_datetime start_date = Inr start" "\<not> tz_aware start"
    and "to_datetime end_date = Inr end_ts"
  shows "filter_by_date_range strptime to_datetime df start_date end_date = Inl TypeError"
proof -
  from assms(1) have ne: "df \<noteq> []" by auto
  from assms(1) have aw: "snd (to_datetime_column strptime (map date df))"
    by (auto simp: to_datetime_column_def Let_def)
  with assms(3) have "series_cmp (\<lambda>a b. b \<le> a) (to_datetime_column strptime (map date df)) start
      = Inl TypeError"
    by (intro series_cmp_mismatch) simp
  then show ?thesis
    using ne assms(2,4) by (simp add: filter_by_date_range_def Let_def)
qed

text \<open>When no date of a non-empty frame parses, every row is dropped and nothing is raised.\<close>

lemma filter_by_date_range_unparseable:
  assumes "df \<noteq> []" "\<forall>r \<in> set df. strptime (date r) = None"
    and "to_datetime start_date = Inr start" "\<not> tz_aware start"
    and "to_datetime end_date = Inr end_ts" "\<not> tz_aware end_ts"
  shows "filter_by_date_range strptime to_datetime df start_date end_date = Inr []"
proof -
  have p: "to_datetime_column strptime (map date df) = (map (\<lambda>r. None) df, False)"
    using assms(2) by (auto simp: to_datetime_column_def Let_def)
  have "mask_rows df (map2 (\<and>) (map (\<lambda>r. False) df) (map (\<lambda>r. False) df)) = []"
    by (simp add: map2_map mask_rows_map del: zip_map_map)
  then show ?thesis
    using assms(1,3-6)
    by (simp add: filter_by_date_range_def Let_def p series_cmp_def comp_def del: zip_map_map)
qed

text \<open>
  C4 fails on the code: a record published on 15 February 2022 at 10:00 (+09:00), in
  the API's date format, lies inside the first quarter of 2022, yet filtering the frame
  that holds it by the bounds "2022-01-01" and "2022-03-31" keeps nothing and raises
  TypeError: the parsed column carries a time zone (the format reads \<open>%z\<close>), the bounds
  carry none, and pandas refuses to compare the two.
\<close>

theorem filter_by_date_range_raises_TypeError:
  "strptime_15_feb (date (dated_row pubdate_15_feb)) = Some 1644886800000000 \<and>
   (1640995200000000 :: int) \<le> 1644886800000000 \<and>
   (1644886800000000 :: int) < 1648684800000000 + one_day \<and>
   filter_by_date_range strptime_15_feb to_datetime_2022_Q1 [dated_row pubdate_15_feb]
     ''2022-01-01'' ''2022-03-31'' = Inl TypeError"
  by (simp add: filter_by_date_range_def to_datetime_column_def series_cmp_def
      strptime_15_feb_def to_datetime_2022_Q1_def dated_row_def one_day_def Let_def)

lemma exact_ceil_ok: "exact_below_2_53 exact_ceil"
  by (simp add: exact_below_2_53_def exact_ceil_def)

lemma ceil_pages:
  assumes "0 < d" "0 < (a::int)"
  shows "1 \<le> - ((- a) div d)" and "(- ((- a) div d) - 1) * d < a"
proof -
  have "(- a) div d < 0" using assms by (simp add: pos_imp_zdiv_neg_iff)
  then show "1 \<le> - ((- a) div d)" by simp
  define q where "q = (- a) div d"
  define r where "r = (- a) mod d"
  have e: "q * d + r = - a" by (simp add: q_def r_def)
  have "r < d" using assms(1) by (simp add: r_def)
  moreover have "(- q - 1) * d = - (q * d) - d" by (simp add: algebra_simps)
  ultimately have "(- q - 1) * d < a" using e by linarith
  then show "(- ((- a) div d) - 1) * d < a" by (simp add: q_def)
qed

lemma slice_to_length: "0 \<le> n \<Longrightarrow> int (length (slice_to xs n)) \<le> n"
  by (simp add: slice_to_def)

lemma page_loop_full:
  assumes dl: "0 \<le> api_delay" and dpos: "0 < display"
  shows "\<forall>q. p \<le> q \<and> q \<le> P \<longrightarrow>
           (\<exists>js. search ((q - 1) * display + 1) = Inr (Some js) \<and> items js \<noteq> [] \<and>
                 int (length (items js)) \<le> display) \<Longrightarrow>
         int (length its) \<le> (p - 1) * display \<Longrightarrow>
         int (length its) \<le> max_items \<Longrightarrow>
         (P - 1) * display < max_items \<Longrightarrow>
         \<exists>its'. page_loop display max_items api_delay search [p..P] its reqs =
                  Inr (its', reqs @ map (page_start display) [p..P]) \<and>
                int (length its') \<le> max_items"
proof (induction "nat (P - p + 1)" arbitrary: p its reqs)
  case 0
  then have "[p..P] = []" by simp
  with "0.prems" show ?case by simp
next
  case (Suc n)
  then have le: "p \<le> P" by simp
  then have u: "[p..P] = p # [p + 1..P]" by (simp add: upto_rec1)
  from Suc.prems(1) le obtain js where js: "search ((p - 1) * display + 1) = Inr (Some js)"
    "items js \<noteq> []" "int (length (items js)) \<le> display" by blast
  let ?its = "its @ items js"
  have len: "int (length ?its) \<le> p * display"
    using Suc.prems(2) js(3) by (simp add: algebra_simps)
  have p1: "1 \<le> p"
  proof (rule ccontr)
    assume "\<not> 1 \<le> p"
    then have "p - 1 \<le> - 1" by simp
    then have "(p - 1) * display \<le> - 1 * display" using dpos by (intro mult_right_mono) simp_all
    with Suc.prems(2) dpos show False by simp
  qed
  show ?case
  proof (cases "max_items \<le> int (length ?its)")
    case True
    have "p = P"
    proof (rule ccontr)
      assume "p \<noteq> P"
      with le have "p \<le> P - 1" by simp
      then have "p * display \<le> (P - 1) * display" using dpos by (intro mult_right_mono) simp_all
      with len True Suc.prems(4) show False by simp
    qed
    have "0 \<le> (p - 1) * display" using p1 dpos by simp
    with Suc.prems(4) \<open>p = P\<close> have m0: "0 \<le> max_items" by simp
    have "page_loop display max_items api_delay search [p..P] its reqs =
            Inr (slice_to ?its max_items, reqs @ [page_start display p])"
      using True js dl by (simp add: u time_sleep_def Let_def page_start_def)
    moreover have "[p..P] = [p]" using \<open>p = P\<close> by simp
    ultimately show ?thesis using slice_to_length[OF m0] by simp
  next
    case False
    have n: "n = nat (P - (p + 1) + 1)" using Suc.hyps(2) by simp
    have 1: "\<forall>q. p + 1 \<le> q \<and> q \<le> P \<longrightarrow>
           (\<exists>js. search ((q - 1) * display + 1) = Inr (Some js) \<and> items js \<noteq> [] \<and>
                 int (length (items js)) \<le> display)"
      using Suc.prems(1) by simp
    have 2: "int (length ?its) \<le> (p + 1 - 1) * display" using len by simp
    have 3: "int (length ?its) \<le> max_items" using False by simp
    from Suc.hyps(1)[OF n 1 2 3 Suc.prems(4), of "reqs @ [page_start display p]"]
    obtain its' where r: "page_loop display max_items api_delay search [p + 1..P] ?its
         (reqs @ [page_start display p]) =
        Inr (its', (reqs @ [page_start display p]) @ map (page_start display) [p + 1..P])"
      "int (length its') \<le> max_items" by blast
    have "page_loop display max_items api_delay search [p..P] its reqs =
            page_loop display max_items api_delay search [p + 1..P] ?its
              (reqs @ [page_start display p])"
      using False js dl by (simp add: u time_sleep_def Let_def page_start_def)
    with r show ?thesis by (simp add: u)
  qed
qed

lemma fetch_items_full_pages:
  assumes dl: "0 \<le> api_call_delay cfg"
    and fc: "exact_below_2_53 float_ceil"
    and d: "0 < display_per_page cfg" "display_per_page cfg < 2 ^ 53"
    and first: "search 1 = Inr (Some first)"
    and ttf: "0 < min (total first) (max_items_per_query cfg)"
      "min (total first) (max_items_per_query cfg) < 2 ^ 53"
    and f1: "int (length (items first)) \<le> display_per_page cfg"
      "int (length (items first)) \<le> max_items_per_query cfg"
    and pg: "\<forall>q. 2 \<le> q \<and> q \<le> - ((- min (total first) (max_items_per_query cfg)) div display_per_page cfg) \<longrightarrow>
           (\<exists>js. search ((q - 1) * display_per_page cfg + 1) = Inr (Some js) \<and> items js \<noteq> [] \<and>
                 int (length (items js)) \<le> display_per_page cfg)"
  shows "\<exists>its. fetch_items cfg float_ceil search =
           Inr (its, map (page_start (display_per_page cfg))
                  [1..- ((- min (total first) (max_items_per_query cfg)) div display_per_page cfg)]) \<and>
         int (length its) \<le> max_items_per_query cfg"
proof -
  let ?d = "display_per_page cfg" and ?m = "max_items_per_query cfg"
  let ?t = "min (total first) ?m"
  let ?P = "- ((- ?t) div ?d)"
  have c: "ceil_div float_ceil ?t ?d = Inr ?P"
    using fc d ttf by (simp add: ceil_div_def exact_below_2_53_def)
  note cp = ceil_pages[OF d(1) ttf(1)]
  have cap: "(?P - 1) * ?d < ?m"
    using cp(2) by (rule less_le_trans) simp
  have l: "int (length (items first)) \<le> (2 - 1) * ?d" using f1(1) by simp
  from page_loop_full[OF dl d(1) pg l f1(2) cap, of "[1]"]
  obtain its where r: "page_loop ?d ?m (api_call_delay cfg) search [2..?P] (items first) [1] =
      Inr (its, [1] @ map (page_start ?d) [2..?P])" "int (length its) \<le> ?m" by blast
  have u: "[1..?P] = 1 # [2..?P]" using cp(1) by (simp add: upto_rec1)
  have nz: "?t \<noteq> 0" using ttf(1) by arith
  have "fetch_items cfg float_ceil search = Inr (its, map (page_start ?d) [1..?P])"
    unfolding fetch_items_def Let_def using nz
    by (simp only: first c r(1) sum.case option.case if_False u list.map page_start_def) simp
  with r(2) show ?thesis by blast
qed

text \<open>
  C3 (as amended). Let the first response report a total for which
  \<open>min(total, max_items_per_query)\<close> is positive, let the first page hold at most
  \<open>display\<close> and at most \<open>max_items_per_query\<close> items, and let every later page up to
  page \<open>ceil(min(total, max_items_per_query) / display)\<close> answer with at least one and
  at most \<open>display\<close> items (the page size positive, the delay not negative, the numbers
  below \<open>2^53\<close>). Then exactly that many pages are requested, at the offsets 1,
  \<open>display + 1\<close>, \<open>2 * display + 1\<close>, ..., and the raw item list holds at most
  \<open>max_items_per_query\<close> items. With total 250 and pages of 100, 100 and 50 items
  three pages are requested; with total 5000 and pages of 100 items ten pages are
  requested and the list is cut to exactly 1000 items (page size 100, cap 1000).
\<close>

theorem fetch_items_page_count:
  "(0 \<le> api_call_delay cfg \<and> exact_below_2_53 float_ceil \<and>
    0 < display_per_page cfg \<and> display_per_page cfg < 2 ^ 53 \<and>
    search 1 = Inr (Some first) \<and>
    0 < min (total first) (max_items_per_query cfg) \<and>
    min (total first) (max_items_per_query cfg) < 2 ^ 53 \<and>
    int (length (items first)) \<le> display_per_page cfg \<and>
    int (length (items first)) \<le> max_items_per_query cfg \<and>
    (\<forall>q. 2 \<le> q \<and>
          q \<le> - ((- min (total first) (max_items_per_query cfg)) div display_per_page cfg) \<longrightarrow>
       (\<exists>js. search ((q - 1) * display_per_page cfg + 1) = Inr (Some js) \<and> items js \<noteq> [] \<and>
             int (length (items js)) \<le> display_per_page cfg))
    \<longrightarrow>
    (\<exists>its requested.
       fetch_items cfg float_ceil search = Inr (its, requested) \<and>
       requested = map (page_start (display_per_page cfg))
         [1..- ((- min (total first) (max_items_per_query cfg)) div display_per_page cfg)] \<and>
       int (length requested) =
         - ((- min (total first) (max_items_per_query cfg)) div display_per_page cfg) \<and>
       int (length its) \<le> max_items_per_query cfg)) \<and>
   (\<exists>its. fetch_items get_default_config exact_ceil api_250 = Inr (its, [1, 101, 201]) \<and>
          length its = 250) \<and>
   (\<exists>its. fetch_items get_default_config exact_ceil api_5000 =
            Inr (its, [1, 101, 201, 301, 401, 501, 601, 701, 801, 901]) \<and>
          length its = 1000)"
proof (intro conjI impI)
  assume a: "0 \<le> api_call_delay cfg \<and> exact_below_2_53 float_ceil \<and>
    0 < display_per_page cfg \<and> display_per_page cfg < 2 ^ 53 \<and>
    search 1 = Inr (Some first) \<and>
    0 < min (total first) (max_items_per_query cfg) \<and>
    min (total first) (max_items_per_query cfg) < 2 ^ 53 \<and>
    int (length (items first)) \<le> display_per_page cfg \<and>
    int (length (items first)) \<le> max_items_per_query cfg \<and>
    (\<forall>q. 2 \<le> q \<and>
          q \<le> - ((- min (total first) (max_items_per_query cfg)) div display_per_page cfg) \<longrightarrow>
       (\<exists>js. search ((q - 1) * display_per_page cfg + 1) = Inr (Some js) \<and> items js \<noteq> [] \<and>
             int (length (items js)) \<le> display_per_page cfg))"
  let ?P = "- ((- min (total first) (max_items_per_query cfg)) div display_per_page cfg)"
  from a have d: "0 < display_per_page cfg" and t: "0 < min (total first) (max_items_per_query cfg)"
    by simp_all
  have "1 \<le> ?P" using ceil_pages(1)[OF d t] .
  then have n: "int (length (map (page_start (display_per_page cfg)) [1..?P])) = ?P" by simp
  from a have "\<exists>its. fetch_items cfg float_ceil search =
           Inr (its, map (page_start (display_per_page cfg)) [1..?P]) \<and>
         int (length its) \<le> max_items_per_query cfg"
    by (intro fetch_items_full_pages) simp_all
  with n show "\<exists>its requested.
       fetch_items cfg float_ceil search = Inr (its, requested) \<and>
       requested = map (page_start (display_per_page cfg)) [1..?P] \<and>
       int (length requested) = ?P \<and>
       int (length its) \<le> max_items_per_query cfg"
    by blast
next
  have "fetch_items get_default_config exact_ceil api_250 =
          Inr (replicate 100 () @ replicate 100 () @ replicate 50 (), [1, 101, 201])"
    by (simp add: fetch_items_def get_default_config_def exact_ceil_def ceil_div_def api_250_def
        time_sleep_def Let_def)
  then show "\<exists>its. fetch_items get_default_config exact_ceil api_250 = Inr (its, [1, 101, 201]) \<and>
          length its = 250"
    by simp
next
  have "\<exists>its. fetch_items get_default_config exact_ceil api_5000 =
            Inr (its, [1, 101, 201, 301, 401, 501, 601, 701, 801, 901]) \<and> length its = 1000"
    by (simp add: fetch_items_def get_default_config_def exact_ceil_def ceil_div_def api_5000_def
        time_sleep_def slice_to_def Let_def)
  then show "\<exists>its. fetch_items get_default_config exact_ceil api_5000 =
            Inr (its, [1, 101, 201, 301, 401, 501, 601, 701, 801, 901]) \<and> length its = 1000" .
qed

text \<open>
  C3 as stated fails when a page comes back empty: with total 250, page size 100 and cap
  1000 the count \<open>ceil(min(total, cap) / display)\<close> is 3, but an empty second page ends
  the loop after two requests.
\<close>

theorem fetch_items_stops_at_empty_page:
  "ceil_div exact_ceil (min 250 (max_items_per_query get_default_config))
     (display_per_page get_default_config) = Inr 3 \<and>
   fetch_items get_default_config exact_ceil api_250_gap = Inr (replicate 100 (), [1, 101])"
  by (simp add: fetch_items_def get_default_config_def exact_ceil_def ceil_div_def api_250_gap_def
      time_sleep_def Let_def)

text \<open>
  The theorem at work on the API that reports 250 results and answers with pages of
  100, 100 and 50 items.
\<close>

theorem fetch_items_page_count_witness:
  "\<exists>its requested.
     fetch_items get_default_config exact_ceil api_250 = Inr (its, requested) \<and>
     requested = map (page_start 100) [1..3] \<and>
     int (length requested) = 3 \<and>
     int (length its) \<le> 1000"
proof -
  let ?first = "\<lparr>total = 250, items = replicate 100 ()\<rparr> :: unit response"
  have h: "0 \<le> api_call_delay get_default_config \<and> exact_below_2_53 exact_ceil \<and>
    0 < display_per_page get_default_config \<and> display_per_page get_default_config < 2 ^ 53 \<and>
    api_250 1 = Inr (Some ?first) \<and>
    0 < min (total ?first) (max_items_per_query get_default_config) \<and>
    min (total ?first) (max_items_per_query get_default_config) < 2 ^ 53 \<and>
    int (length (items ?first)) \<le> display_per_page get_default_config \<and>
    int (length (items ?first)) \<le> max_items_per_query get_default_config \<and>
    (\<forall>q. 2 \<le> q \<and>
          q \<le> - ((- min (total ?first) (max_items_per_query get_default_config)) div
                  display_per_page get_default_config) \<longrightarrow>
       (\<exists>js. api_250 ((q - 1) * display_per_page get_default_config + 1) = Inr (Some js) \<and>
             items js \<noteq> [] \<and>
             int (length (items js)) \<le> display_per_page get_default_config))"
    by (simp add: get_default_config_def exact_ceil_ok api_250_def)
  have p: "- ((- min (total ?first) (max_items_per_query get_default_config)) div
              display_per_page get_default_config) = 3"
    by (simp add: get_default_config_def)
  have d: "display_per_page get_default_config = 100" "max_items_per_query get_default_config = 1000"
    by (simp_all add: get_default_config_def)
  from fetch_items_page_count[of get_default_config exact_ceil api_250 ?first,
      THEN conjunct1, THEN mp, OF h]
  show ?thesis by (simp add: get_default_config_def)
qed

end
